theory Spec2Isabelle
  imports Main "HOL-Library.AList"
begin

unbundle bit_operations_syntax

section \<open>Bytes, configuration and the obfuscation codec\<close>

text \<open>
  A \<^verbatim>\<open>std::string\<close> is a sequence of 8-bit \<^verbatim>\<open>char\<close>s; HOL's \<^typ>\<open>char\<close> has exactly
  256 values, so \<^typ>\<open>string\<close> models it, for protocol text and for raw file content alike.
  The configuration constants are the same in \<^verbatim>\<open>server.cpp\<close> and in the client.
\<close>

definition PORT :: nat where
  "PORT = 9999"

definition BUFFER_SIZE :: nat where
  "BUFFER_SIZE = 4096"

definition SERVER_FILES_DIR :: string where
  "SERVER_FILES_DIR = ''server_files''"

definition CLIENT_FILES_DIR :: string where
  "CLIENT_FILES_DIR = ''client_files''"

definition ENCRYPTION_KEY :: string where
  "ENCRYPTION_KEY = ''mysecretkey''"

text \<open>
  \<^verbatim>\<open>a ^ b\<close> on two \<^verbatim>\<open>char\<close>s, stored back into a \<^verbatim>\<open>char\<close>: the exclusive or of the two
  bit patterns.
\<close>

definition xor_char :: "char \<Rightarrow> char \<Rightarrow> char" where
  "xor_char a b = char_of ((of_char a :: nat) XOR of_char b)"

text \<open>
  \<^verbatim>\<open>encryptDecrypt\<close> (server.cpp 64-70, client 52-58, the same text in both):
  \<^verbatim>\<open>result = data; for (i = 0; i < data.size(); ++i)
      result[i] = data[i] ^ ENCRYPTION_KEY[i % ENCRYPTION_KEY.size()];\<close>
\<close>

function encryptDecrypt_loop :: "string \<Rightarrow> nat \<Rightarrow> string \<Rightarrow> string" where
  "encryptDecrypt_loop data i result =
     (if i < length data
      then encryptDecrypt_loop data (Suc i)
             (result[i := xor_char (data ! i) (ENCRYPTION_KEY ! (i mod length ENCRYPTION_KEY))])
      else result)"
  by pat_completeness auto
termination
  by (relation "measure (\<lambda>(data, i, result). length data - i)") auto

declare encryptDecrypt_loop.simps [simp del]

definition encryptDecrypt :: "string \<Rightarrow> string" where
  "encryptDecrypt data = encryptDecrypt_loop data 0 data"



section \<open>Text extraction and decimal numbers\<close>

text \<open>
  Commands and responses are tokenised with \<^verbatim>\<open>std::stringstream ss(cmd); ss >> token\<close>.
  The stream is modelled by the characters not yet read. Extraction of a string skips leading
  whitespace and reads up to the next whitespace character. When nothing is left to read the
  extraction fails and leaves its target as it was; every target in this program is a string
  declared just before (\<^verbatim>\<open>std::string command;\<close>), hence empty. After a failed extraction
  nothing is left in the model's stream, so every later extraction fails too, as it does in
  C++ once \<^verbatim>\<open>failbit\<close> is set.
\<close>

definition isspace :: "char \<Rightarrow> bool" where
  "isspace c \<longleftrightarrow> c \<in> set [CHR '' '', CHR 0x09, CHR 0x0A, CHR 0x0B, CHR 0x0C, CHR 0x0D]"

definition extract_string :: "string \<Rightarrow> string \<times> string" where
  "extract_string ss =
     (let t = dropWhile isspace ss
      in (takeWhile (\<lambda>c. \<not> isspace c) t, dropWhile (\<lambda>c. \<not> isspace c) t))"

definition isdigit :: "char \<Rightarrow> bool" where
  "isdigit c \<longleftrightarrow> (of_char c :: nat) \<in> {48..57}"

definition digit_val :: "char \<Rightarrow> int" where
  "digit_val c = int (of_char c - 48)"

definition decimal_value :: "string \<Rightarrow> int" where
  "decimal_value ds = foldl (\<lambda>acc c. 10 * acc + digit_val c) 0 ds"

definition LLONG_MAX :: int where
  "LLONG_MAX = 2 ^ 63 - 1"

definition LLONG_MIN :: int where
  "LLONG_MIN = - (2 ^ 63)"

text \<open>
  \<^verbatim>\<open>long long fileSize; ss >> fileSize;\<close> Leading whitespace is skipped; with nothing left
  the extraction does not take place and \<open>fileSize\<close> keeps its value, which is indeterminate
  because the variable was never initialised: the result is \<open>None\<close>. Otherwise an optional
  sign and the longest run of decimal digits are read; no digit at all stores 0, a value out
  of range stores the nearest bound of \<^verbatim>\<open>long long\<close>. The size is the last token read in
  both programs, so the rest of the stream is not returned.
\<close>

definition extract_ll :: "string \<Rightarrow> int option" where
  "extract_ll ss =
     (let t = dropWhile isspace ss in
      if t = [] then None
      else
        let negative = (hd t = CHR ''-'');
            u = (if hd t = CHR ''-'' \<or> hd t = CHR ''+'' then tl t else t);
            ds = takeWhile isdigit u
        in if ds = [] then Some 0
           else Some (max LLONG_MIN (min LLONG_MAX
                        (if negative then - decimal_value ds else decimal_value ds))))"

text \<open>\<^verbatim>\<open>std::to_string\<close> on a \<^verbatim>\<open>long long\<close>: the decimal digits, after a minus sign if negative.\<close>

fun dec_digits :: "nat \<Rightarrow> string" where
  "dec_digits n =
     (if n < 10 then [''0123456789'' ! n]
      else dec_digits (n div 10) @ [''0123456789'' ! (n mod 10)])"

declare dec_digits.simps [simp del]

definition to_string :: "int \<Rightarrow> string" where
  "to_string n = (if n < 0 then CHR ''-'' # dec_digits (nat (- n)) else dec_digits (nat n))"


section \<open>File system\<close>

text \<open>
  Each program sees a file system through \<^verbatim>\<open>std::ifstream\<close>, \<^verbatim>\<open>std::ofstream\<close> and
  \<^verbatim>\<open>std::filesystem::directory_iterator\<close>. The model keeps the regular files as an
  association list from the path, as the program spells it, to the content, in the order in
  which a directory is iterated; the directories that exist; and which paths an
  \<^verbatim>\<open>ofstream\<close> can open. Paths are compared as written. An \<^verbatim>\<open>ifstream\<close> opens a path iff
  a file is stored under it. A file that is created comes last in the iteration order, which
  C++ leaves unspecified.
\<close>

record filesystem =
  files :: "(string \<times> string) list"
  dirs :: "string list"
  writable :: "string \<Rightarrow> bool"

definition ifstream_open :: "filesystem \<Rightarrow> string \<Rightarrow> string option" where
  "ifstream_open fs path = map_of (files fs) path"

text \<open>Opening an \<^verbatim>\<open>ofstream\<close> creates the file or truncates it; \<open>None\<close> is \<^verbatim>\<open>!is_open()\<close>.\<close>

definition ofstream_open :: "filesystem \<Rightarrow> string \<Rightarrow> filesystem option" where
  "ofstream_open fs path =
     (if writable fs path then Some (fs\<lparr>files := AList.update path [] (files fs)\<rparr>) else None)"

definition ofstream_write :: "filesystem \<Rightarrow> string \<Rightarrow> string \<Rightarrow> filesystem" where
  "ofstream_write fs path bytes =
     fs\<lparr>files := AList.update path
            ((case map_of (files fs) path of None \<Rightarrow> [] | Some old \<Rightarrow> old) @ bytes) (files fs)\<rparr>"

text \<open>
  The names a \<^verbatim>\<open>directory_iterator\<close> over \<open>dir\<close> yields through
  \<^verbatim>\<open>entry.path().filename()\<close>: the last component of every stored path directly under
  \<open>dir\<close>. \<open>None\<close> is the \<^verbatim>\<open>filesystem_error\<close> thrown when the directory does not exist.
\<close>

definition entry_name :: "string \<Rightarrow> string \<Rightarrow> string option" where
  "entry_name dir path =
     (let prefix = dir @ ''/''; name = drop (length prefix) path
      in if take (length prefix) path = prefix \<and> name \<noteq> [] \<and> CHR ''/'' \<notin> set name
         then Some name else None)"

definition directory_iterator :: "filesystem \<Rightarrow> string \<Rightarrow> string list option" where
  "directory_iterator fs dir =
     (if dir \<in> set (dirs fs)
      then Some (List.map_filter (entry_name dir) (map fst (files fs)))
      else None)"


section \<open>Transport\<close>

text \<open>
  The transport is taken as the programs take it (one read yields one message): it keeps
  the boundaries of the messages passed to \<^verbatim>\<open>send\<close>, and one call of
  \<^verbatim>\<open>recv(sock, buffer, BUFFER_SIZE, 0)\<close> returns the next message, or its next
  \<^verbatim>\<open>BUFFER_SIZE\<close> bytes when the message is longer than the buffer. \<open>segments bytes\<close> are the
  results of the successive reads that consume one sent message; sending no byte delivers
  nothing. The result of a read is written \<open>raw\<close>; the empty \<open>raw\<close> stands for a return
  value \<^verbatim>\<open>\<le> 0\<close> of \<^verbatim>\<open>recv\<close> (connection closed, or an error).
\<close>

function segments :: "string \<Rightarrow> string list" where
  "segments bytes =
     (if bytes = [] then [] else take BUFFER_SIZE bytes # segments (drop BUFFER_SIZE bytes))"
  by pat_completeness auto
termination
  by (relation "measure length") (auto simp: BUFFER_SIZE_def)

declare segments.simps [simp del]

text \<open>\<^verbatim>\<open>sendResponse\<close> (server.cpp 75-79): the bytes handed to \<^verbatim>\<open>send\<close>.\<close>

definition sendResponse :: "string \<Rightarrow> string" where
  "sendResponse response = encryptDecrypt response"

text \<open>\<^verbatim>\<open>receiveCommand\<close> (server.cpp 84-91) on the result \<open>raw\<close> of its \<^verbatim>\<open>recv\<close>.\<close>

definition receiveCommand :: "string \<Rightarrow> string" where
  "receiveCommand raw = (if raw = [] then [] else encryptDecrypt raw)"


section \<open>The server session\<close>

text \<open>
  \<^verbatim>\<open>handle_client\<close> (server.cpp 97-226) blocks in \<^verbatim>\<open>receiveCommand\<close> at three places. The
  session is modelled as a state machine whose state records at which of them it waits, and
  whose step is the code run from one return of \<^verbatim>\<open>receiveCommand\<close> to the next call:
  \<^item> \<open>AwaitCommand\<close>: line 105, the top of \<^verbatim>\<open>while (true)\<close>;
  \<^item> \<open>AwaitStart file\<close>: line 157, with the \<^verbatim>\<open>ifstream\<close> open on the bytes \<open>file\<close>;
  \<^item> \<open>Receiving filepath fileSize bytesReceived\<close>: line 195, inside the upload loop, with
    the \<^verbatim>\<open>ofstream\<close> open on \<open>filepath\<close>;
  \<^item> \<open>Closed\<close>: the loop was left and the socket closed (lines 224-225);
  \<^item> \<open>Undefined\<close>: the program has read \<open>fileSize\<close> without ever having assigned it, which
    C++ leaves undefined; the model says nothing about what follows.
  A step returns the new state and the messages passed to \<^verbatim>\<open>send\<close>, in order. The result
  of \<^verbatim>\<open>sendResponse\<close> is ignored throughout \<^verbatim>\<open>handle_client\<close>. The lines written by
  \<^verbatim>\<open>log\<close> go to the server's standard output and are left out. The two \<^verbatim>\<open>long long\<close>
  counters are integers: \<open>bytesReceived\<close> grows by at most \<^verbatim>\<open>BUFFER_SIZE\<close> per message and
  cannot leave the range of \<^verbatim>\<open>long long\<close> before \<open>2\<^sup>6\<^sup>3 - 4096\<close> bytes have been received in
  one transfer.
\<close>

datatype server_mode =
    AwaitCommand
  | AwaitStart string
  | Receiving string int int
  | Closed
  | Undefined

record server =
  isAuthenticated :: bool
  mode :: server_mode
  sfs :: filesystem

definition VALID_USERS :: "(string \<times> string) list" where
  "VALID_USERS = [(''user'', ''pass123''), (''admin'', ''adminpass'')]"

text \<open>Line 120: \<^verbatim>\<open>VALID_USERS.count(user) && VALID_USERS[user] == pass\<close>.\<close>

definition valid_login :: "string \<Rightarrow> string \<Rightarrow> bool" where
  "valid_login user pass =
     (case map_of VALID_USERS user of None \<Rightarrow> False | Some p \<Rightarrow> p = pass)"

text \<open>
  Lines 117-120 on a decoded command: the command is \<^verbatim>\<open>AUTH\<close> and its two arguments are
  a valid login.
\<close>

definition login_accepted :: "string \<Rightarrow> bool" where
  "login_accepted cmd =
     (let (command, ss1) = extract_string cmd;
          (user, ss2) = extract_string ss1;
          (pass, ss3) = extract_string ss2
      in command = ''AUTH'' \<and> valid_login user pass)"

text \<open>
  Lines 163-167: \<^verbatim>\<open>while (file.read(fileBuffer, sizeof(fileBuffer)) || file.gcount() > 0)\<close>
  sends what was read. \<^verbatim>\<open>read\<close> succeeds iff a whole buffer was left to read; a read that
  fails leaves nothing in the stream. The result is the list of messages sent.
\<close>

function stream_file :: "string \<Rightarrow> string list" where
  "stream_file rest =
     (let read_ok = (BUFFER_SIZE \<le> length rest); chunk = take BUFFER_SIZE rest
      in if read_ok \<or> length chunk > 0
         then sendResponse chunk # stream_file (drop BUFFER_SIZE rest)
         else [])"
  by pat_completeness auto
termination
  by (relation "measure length") (auto simp: BUFFER_SIZE_def)

declare stream_file.simps [simp del]

text \<open>Lines 203-211: close the file and report.\<close>

definition upload_finish :: "server \<Rightarrow> int \<Rightarrow> int \<Rightarrow> server \<times> string list" where
  "upload_finish s bytesReceived fileSize =
     (s\<lparr>mode := AwaitCommand\<rparr>,
      [if bytesReceived = fileSize then sendResponse ''UPLOAD_SUCCESS''
       else sendResponse ''ERROR Upload incomplete.''])"

text \<open>Line 194: the test of \<^verbatim>\<open>while (bytesReceived < fileSize)\<close>, then the wait at line 195.\<close>

definition upload_loop :: "server \<Rightarrow> string \<Rightarrow> int \<Rightarrow> int \<Rightarrow> server \<times> string list" where
  "upload_loop s filepath fileSize bytesReceived =
     (if bytesReceived < fileSize
      then (s\<lparr>mode := Receiving filepath fileSize bytesReceived\<rparr>, [])
      else upload_finish s bytesReceived fileSize)"

text \<open>Lines 195-202: the body of the upload loop, from the return of \<^verbatim>\<open>receiveCommand\<close>.\<close>

definition upload_chunk :: "server \<Rightarrow> string \<Rightarrow> int \<Rightarrow> int \<Rightarrow> string \<Rightarrow> server \<times> string list" where
  "upload_chunk s filepath fileSize bytesReceived raw =
     (let chunk = receiveCommand raw in
      if chunk = [] then upload_finish s bytesReceived fileSize
      else upload_loop (s\<lparr>sfs := ofstream_write (sfs s) filepath chunk\<rparr>) filepath fileSize
             (bytesReceived + int (length chunk)))"

text \<open>Lines 111-218: one command, already received and not empty.\<close>

definition handle_command :: "server \<Rightarrow> string \<Rightarrow> server \<times> string list" where
  "handle_command s cmd =
     (let (command, ss1) = extract_string cmd in
      if \<not> isAuthenticated s then
        (if command = ''AUTH'' then
           (let (user, ss2) = extract_string ss1;
                (pass, ss3) = extract_string ss2
            in if valid_login user pass
               then (s\<lparr>isAuthenticated := True\<rparr>, [sendResponse ''AUTH_SUCCESS''])
               else (s, [sendResponse ''AUTH_FAIL'']))
         else (s, [sendResponse ''ERROR Authentication required.'']))
      else if command = ''LIST'' then
        (case directory_iterator (sfs s) SERVER_FILES_DIR of
           None \<Rightarrow> (s\<lparr>mode := Closed\<rparr>, [])
         | Some names \<Rightarrow>
             (s, [sendResponse (''Files on server:'' @ [CHR 0x0A]
                                 @ concat (map (\<lambda>name. name @ [CHR 0x0A]) names))]))
      else if command = ''DOWNLOAD'' then
        (let (filename, ss2) = extract_string ss1;
             filepath = SERVER_FILES_DIR @ ''/'' @ filename
         in case ifstream_open (sfs s) filepath of
              Some file \<Rightarrow>
                (s\<lparr>mode := AwaitStart file\<rparr>,
                 [sendResponse (''OK_DOWNLOAD '' @ to_string (int (length file)))])
            | None \<Rightarrow> (s, [sendResponse ''ERROR File not found.'']))
      else if command = ''UPLOAD'' then
        (let (filename, ss2) = extract_string ss1;
             filepath = SERVER_FILES_DIR @ ''/'' @ filename
         in case ofstream_open (sfs s) filepath of
              None \<Rightarrow> (s, [sendResponse ''ERROR Cannot create file.''])
            | Some fs' \<Rightarrow>
                (case extract_ll ss2 of
                   None \<Rightarrow> (s\<lparr>sfs := fs', mode := Undefined\<rparr>, [sendResponse ''OK_UPLOAD''])
                 | Some fileSize \<Rightarrow>
                     (let (s', out) = upload_loop (s\<lparr>sfs := fs'\<rparr>) filepath fileSize 0
                      in (s', sendResponse ''OK_UPLOAD'' # out))))
      else if command = ''QUIT'' then (s\<lparr>mode := Closed\<rparr>, [])
      else (s, [sendResponse ''ERROR Unknown command.'']))"

text \<open>One return of \<^verbatim>\<open>receiveCommand\<close> with the bytes \<open>raw\<close>, up to the next call.\<close>

definition server_step :: "server \<Rightarrow> string \<Rightarrow> server \<times> string list" where
  "server_step s raw =
     (case mode s of
        AwaitCommand \<Rightarrow>
          (let cmd = receiveCommand raw in
           if cmd = [] then (s\<lparr>mode := Closed\<rparr>, []) else handle_command s cmd)
      | AwaitStart file \<Rightarrow>
          (if receiveCommand raw \<noteq> ''START'' then (s\<lparr>mode := AwaitCommand\<rparr>, [])
           else (s\<lparr>mode := AwaitCommand\<rparr>, stream_file file @ [sendResponse ''DOWNLOAD_DONE'']))
      | Receiving filepath fileSize bytesReceived \<Rightarrow>
          upload_chunk s filepath fileSize bytesReceived raw
      | Closed \<Rightarrow> (s, [])
      | Undefined \<Rightarrow> (s, []))"

text \<open>The session over a sequence of reads: the final state and everything sent.\<close>

fun server_run :: "server \<Rightarrow> string list \<Rightarrow> server \<times> string list" where
  "server_run s [] = (s, [])"
| "server_run s (raw # raws) =
     (let (s1, out1) = server_step s raw; (s2, out2) = server_run s1 raws
      in (s2, out1 @ out2))"


section \<open>The client\<close>

text \<open>
  The client is written as in its source, as functions from state to state. Its state holds
  its file system, the server session at the other end of the socket, the messages the
  server has sent and the client has not read yet (\<open>inbox\<close>), everything the client has passed
  to \<^verbatim>\<open>send\<close> (\<open>sent\<close>), and the lines written to \<^verbatim>\<open>std::cout\<close> and \<^verbatim>\<open>std::cerr\<close>
  (\<open>console\<close>). The server only acts when a message reaches it, so its steps are run at the
  moment the client sends.

  A function of the client that waits in \<^verbatim>\<open>recv\<close> while the server waits as well never
  returns (\<open>Blocked\<close>); one that reads a variable it never assigned, or waits for a server
  whose behaviour is undefined, has no defined result (\<open>UB\<close>).
\<close>

datatype 'a result = Returns 'a | Blocked | UB

record client =
  cfs :: filesystem
  peer :: server
  inbox :: "string list"
  sent :: "string list"
  console :: "string list"

text \<open>
  \<^verbatim>\<open>sendCommand\<close> (client 63-66). \<^verbatim>\<open>send\<close> returns the number of bytes it accepted: the
  call reports success for a message that is not empty on a connection the server has not
  closed.
\<close>

definition sendCommand :: "client \<Rightarrow> string \<Rightarrow> bool \<times> client" where
  "sendCommand c cmd =
     (let encryptedCmd = encryptDecrypt cmd;
          (p, replies) = server_run (peer c) (segments encryptedCmd)
      in (encryptedCmd \<noteq> [] \<and> mode (peer c) \<noteq> Closed,
          c\<lparr>peer := p,
            inbox := inbox c @ concat (map segments replies),
            sent := sent c @ [encryptedCmd]\<rparr>))"

text \<open>\<^verbatim>\<open>receiveResponse\<close> (client 71-78).\<close>

definition receiveResponse :: "client \<Rightarrow> (string \<times> client) result" where
  "receiveResponse c =
     (case inbox c of
        raw # rest \<Rightarrow>
          Returns (if raw = [] then [] else encryptDecrypt raw, c\<lparr>inbox := rest\<rparr>)
      | [] \<Rightarrow>
          (if mode (peer c) = Closed then Returns ([], c)
           else if mode (peer c) = Undefined then UB
           else Blocked))"

definition print :: "client \<Rightarrow> string \<Rightarrow> client" where
  "print c line = c\<lparr>console := console c @ [line]\<rparr>"

text \<open>\<^verbatim>\<open>handleList\<close> (client 83-86).\<close>

definition handleList :: "client \<Rightarrow> client result" where
  "handleList c =
     (case receiveResponse c of
        Returns (response, c1) \<Rightarrow> Returns (print c1 response)
      | Blocked \<Rightarrow> Blocked
      | UB \<Rightarrow> UB)"

text \<open>
  The loop of \<^verbatim>\<open>handleDownload\<close> (client 116-135); it returns the state and the final
  \<open>bytesReceived\<close>.
\<close>

function download_loop :: "client \<Rightarrow> string \<Rightarrow> int \<Rightarrow> int \<Rightarrow> (client \<times> int) result" where
  "download_loop c filepath fileSize bytesReceived =
     (if bytesReceived < fileSize then
        (case receiveResponse c of
           Blocked \<Rightarrow> Blocked
         | UB \<Rightarrow> UB
         | Returns (chunk, c1) \<Rightarrow>
             if chunk = []
             then Returns (print c1 ''[-] Error: Connection lost during download.'', bytesReceived)
             else
               (let truncate = (bytesReceived + int (length chunk) > fileSize);
                    bytesToWrite =
                      (if truncate then fileSize - bytesReceived else int (length chunk));
                    chunk' = (if truncate then take (nat bytesToWrite) chunk else chunk)
                in download_loop (c1\<lparr>cfs := ofstream_write (cfs c1) filepath chunk'\<rparr>)
                     filepath fileSize (bytesReceived + bytesToWrite)))
      else Returns (c, bytesReceived))"
  by pat_completeness auto
termination
proof (relation "measure (\<lambda>(c, filepath, fileSize, bytesReceived). length (inbox c))")
  show "wf (measure (\<lambda>(c, filepath, fileSize, bytesReceived). length (inbox c)))"
    by simp
next
  fix c :: client and filepath :: string and fileSize bytesReceived :: int
    and x2 :: "string \<times> client" and chunk :: string and c1 :: client
    and truncate :: bool and bytesToWrite :: int and chunk' :: string
  assume "receiveResponse c = Returns x2" and "(chunk, c1) = x2" and "chunk \<noteq> []"
  then have "length (inbox c1) < length (inbox c)"
    by (auto simp: receiveResponse_def split: list.splits if_splits)
  then show "((c1\<lparr>cfs := ofstream_write (cfs c1) filepath chunk'\<rparr>, filepath, fileSize,
               bytesReceived + bytesToWrite), c, filepath, fileSize, bytesReceived)
             \<in> measure (\<lambda>(c, filepath, fileSize, bytesReceived). length (inbox c))"
    by simp
qed

declare download_loop.simps [simp del]

text \<open>
  The end of \<^verbatim>\<open>handleDownload\<close> (client 136-147), after the loop: the file is closed,
  and either one more message is read and compared with the completion sentinel, or the
  download is reported as failed.
\<close>

definition download_finish :: "client \<Rightarrow> string \<Rightarrow> int \<Rightarrow> int \<Rightarrow> client result" where
  "download_finish c filepath fileSize bytesReceived =
     (if bytesReceived \<ge> fileSize then
        (let c1 = print c (''[+] Download complete: '' @ filepath)
         in case receiveResponse c1 of
              Blocked \<Rightarrow> Blocked
            | UB \<Rightarrow> UB
            | Returns (done_signal, c2) \<Rightarrow>
                if done_signal \<noteq> ''DOWNLOAD_DONE''
                then Returns (print c2 (''[+] Warning: Did not receive final DONE signal. Got: ''
                                        @ done_signal))
                else Returns c2)
      else Returns (print c ''[-] Download failed. Incomplete file.''))"

text \<open>Lines 116-147 from a given state of the loop: the loop, then the end.\<close>

definition download_receive :: "client \<Rightarrow> string \<Rightarrow> int \<Rightarrow> int \<Rightarrow> client result" where
  "download_receive c filepath fileSize bytesReceived =
     (case download_loop c filepath fileSize bytesReceived of
        Blocked \<Rightarrow> Blocked
      | UB \<Rightarrow> UB
      | Returns (c1, bytesReceived') \<Rightarrow> download_finish c1 filepath fileSize bytesReceived')"

text \<open>\<^verbatim>\<open>handleDownload\<close> (client 91-152).\<close>

definition handleDownload :: "client \<Rightarrow> string \<Rightarrow> client result" where
  "handleDownload c filename =
     (case receiveResponse c of
        Blocked \<Rightarrow> Blocked
      | UB \<Rightarrow> UB
      | Returns (response, c1) \<Rightarrow>
          (let (command, ss1) = extract_string response in
           if command = ''OK_DOWNLOAD'' then
             (case extract_ll ss1 of
                None \<Rightarrow> UB
              | Some fileSize \<Rightarrow>
                  (let c2 = print c1 (''[+] Server OK. File size: '' @ to_string fileSize
                                       @ '' bytes.'');
                       filepath = CLIENT_FILES_DIR @ ''/'' @ filename
                   in case ofstream_open (cfs c2) filepath of
                        None \<Rightarrow>
                          (let c3 = print c2 (''[-] Error: Could not open file for writing: ''
                                               @ filepath);
                               (ok, c4) = sendCommand c3 ''CANCEL''
                           in Returns c4)
                      | Some fs' \<Rightarrow>
                          (let (ok, c3) = sendCommand (c2\<lparr>cfs := fs'\<rparr>) ''START'';
                               c4 = print c3 (''[+] Downloading '' @ filename @ ''...'')
                           in download_receive c4 filepath fileSize 0)))
           else Returns (print c1 (''[-] Server error: '' @ response))))"

text \<open>
  The loop of \<^verbatim>\<open>handleUpload\<close> (client 181-188), reading \<^verbatim>\<open>BUFFER_SIZE / 2\<close> bytes at a
  time; the flag tells whether the loop ran to the end of the file (\<open>False\<close>: the function
  returned from inside the loop).
\<close>

function upload_send_loop :: "client \<Rightarrow> string \<Rightarrow> bool \<times> client" where
  "upload_send_loop c rest =
     (let read_ok = (BUFFER_SIZE div 2 \<le> length rest); chunk = take (BUFFER_SIZE div 2) rest
      in if read_ok \<or> length chunk > 0 then
           (let (ok, c1) = sendCommand c chunk in
            if \<not> ok then (False, print c1 ''[-] Error: Connection lost during upload.'')
            else upload_send_loop c1 (drop (BUFFER_SIZE div 2) rest))
         else (True, c))"
  by pat_completeness auto
termination
  by (relation "measure (\<lambda>(c, rest). length rest)") (auto simp: BUFFER_SIZE_def)

declare upload_send_loop.simps [simp del]

text \<open>\<^verbatim>\<open>handleUpload\<close> (client 157-194).\<close>

definition handleUpload :: "client \<Rightarrow> string \<Rightarrow> client result" where
  "handleUpload c filename =
     (let filepath = CLIENT_FILES_DIR @ ''/'' @ filename in
      case ifstream_open (cfs c) filepath of
        None \<Rightarrow>
          Returns (print c (''[-] Error: File not found in '' @ [CHR 0x27] @ ''client_files''
                            @ [CHR 0x27] @ '' directory: '' @ filename))
      | Some file \<Rightarrow>
          (let fileSize = int (length file);
               (ok, c1) = sendCommand c (''UPLOAD '' @ filename @ '' '' @ to_string fileSize)
           in case receiveResponse c1 of
                Blocked \<Rightarrow> Blocked
              | UB \<Rightarrow> UB
              | Returns (response, c2) \<Rightarrow>
                  if response \<noteq> ''OK_UPLOAD''
                  then Returns (print c2 (''[-] Server error: '' @ response))
                  else
                    (let c3 = print c2 (''[+] Uploading '' @ filename @ '' (''
                                         @ to_string fileSize @ '' bytes)...'');
                         (completed, c4) = upload_send_loop c3 file
                     in if \<not> completed then Returns c4
                        else
                          (case receiveResponse c4 of
                             Blocked \<Rightarrow> Blocked
                           | UB \<Rightarrow> UB
                           | Returns (response', c5) \<Rightarrow>
                               Returns (print c5 (''[+] Server response: '' @ response'))))))"

text \<open>
  The \<^verbatim>\<open>download\<close> branch of the command loop of \<^verbatim>\<open>main\<close> (client 290-298), for a file
  name that is not empty.
\<close>

definition command_download :: "client \<Rightarrow> string \<Rightarrow> client result" where
  "command_download c filename =
     (let (ok, c1) = sendCommand c (''DOWNLOAD '' @ filename) in handleDownload c1 filename)"

text \<open>The \<^verbatim>\<open>list\<close> branch (client 287-289).\<close>

definition command_list :: "client \<Rightarrow> client result" where
  "command_list c = (let (ok, c1) = sendCommand c ''LIST'' in handleList c1)"


section \<open>Example states\<close>

text \<open>
  A storage root holding exactly the files \<^verbatim>\<open>a.txt\<close> and \<^verbatim>\<open>b.txt\<close>, a session that has
  authenticated and waits for a command, the same session before authentication, and a client
  connected to it with one local file.
\<close>

definition example_fs :: filesystem where
  "example_fs =
     \<lparr>files = [(''server_files/a.txt'', ''alpha''), (''server_files/b.txt'', ''beta'')],
      dirs = [''server_files''],
      writable = (\<lambda>path. True)\<rparr>"

definition example_server :: server where
  "example_server = \<lparr>isAuthenticated = True, mode = AwaitCommand, sfs = example_fs\<rparr>"

definition example_guest :: server where
  "example_guest = \<lparr>isAuthenticated = False, mode = AwaitCommand, sfs = example_fs\<rparr>"

definition example_client :: client where
  "example_client =
     \<lparr>cfs = \<lparr>files = [(''client_files/c.txt'', ''abc'')],
             dirs = [''client_files''],
             writable = (\<lambda>path. True)\<rparr>,
      peer = example_server,
      inbox = [],
      sent = [],
      console = []\<rparr>"


section \<open>Properties of the codec\<close>

lemma xor_char_bits:
  "xor_char a b =
     Char (digit0 a \<noteq> digit0 b) (digit1 a \<noteq> digit1 b) (digit2 a \<noteq> digit2 b)
          (digit3 a \<noteq> digit3 b) (digit4 a \<noteq> digit4 b) (digit5 a \<noteq> digit5 b)
          (digit6 a \<noteq> digit6 b) (digit7 a \<noteq> digit7 b)"
  unfolding xor_char_def char_of_def of_char_def
  by (simp only: bit_xor_iff bit_horner_sum_bit_iff) simp

lemma xor_char_cancel: "xor_char (xor_char a b) b = a"
  by (cases a; cases b) (auto simp: xor_char_bits)

lemma length_encryptDecrypt_loop:
  "length (encryptDecrypt_loop data i result) = length result"
proof (induction data i result rule: encryptDecrypt_loop.induct)
  case (1 data i result)
  then show ?case
    by (subst encryptDecrypt_loop.simps) simp
qed

lemma nth_encryptDecrypt_loop:
  "j < length result \<Longrightarrow> length result = length data \<Longrightarrow>
   encryptDecrypt_loop data i result ! j =
     (if i \<le> j then xor_char (data ! j) (ENCRYPTION_KEY ! (j mod length ENCRYPTION_KEY))
      else result ! j)"
proof (induction data i result rule: encryptDecrypt_loop.induct)
  case (1 data i result)
  show ?case
  proof (cases "i < length data")
    case True
    have "i \<le> j \<longleftrightarrow> i = j \<or> Suc i \<le> j"
      by auto
    with True "1.prems" "1.IH" [OF True] show ?thesis
      by (subst encryptDecrypt_loop.simps) (auto simp: nth_list_update)
  next
    case False
    with "1.prems" show ?thesis
      by (subst encryptDecrypt_loop.simps) simp
  qed
qed

lemma length_encryptDecrypt [simp]: "length (encryptDecrypt x) = length x"
  by (simp add: encryptDecrypt_def length_encryptDecrypt_loop)

lemma nth_encryptDecrypt:
  "i < length x \<Longrightarrow>
   encryptDecrypt x ! i = xor_char (x ! i) (ENCRYPTION_KEY ! (i mod length ENCRYPTION_KEY))"
  by (simp add: encryptDecrypt_def nth_encryptDecrypt_loop)

lemma encryptDecrypt_involutive [simp]: "encryptDecrypt (encryptDecrypt x) = x"
  by (rule nth_equalityI) (simp_all add: nth_encryptDecrypt xor_char_cancel)

lemma encryptDecrypt_Nil [simp]: "encryptDecrypt [] = []"
  using length_encryptDecrypt [of "[]"] by (simp del: length_encryptDecrypt)

lemma encryptDecrypt_eq_Nil [simp]: "encryptDecrypt x = [] \<longleftrightarrow> x = []"
  using length_encryptDecrypt [of x] by (auto simp del: length_encryptDecrypt)

lemma encryptDecrypt_eq_iff: "encryptDecrypt x = y \<longleftrightarrow> x = encryptDecrypt y"
  by auto

text \<open>
  Claim C1. The codec is involutive and length-preserving: for every byte sequence \<open>x\<close>,
  with the fixed key (which is not empty), applying \<open>encryptDecrypt\<close> twice gives \<open>x\<close> back,
  the output is as long as the input, and each output byte is the input byte XORed with the
  key byte at the index modulo the key length.
\<close>

theorem encryptDecrypt_involutive_length_xor:
  "ENCRYPTION_KEY \<noteq> []
   \<and> encryptDecrypt (encryptDecrypt x) = x
   \<and> length (encryptDecrypt x) = length x
   \<and> (\<forall>i < length x.
        of_char (encryptDecrypt x ! i) =
          (of_char (x ! i) :: nat) XOR of_char (ENCRYPTION_KEY ! (i mod length ENCRYPTION_KEY)))"
proof -
  have "of_char (xor_char a b) = (of_char a :: nat) XOR of_char b" for a b
  proof -
    have "take_bit 8 ((of_char a :: nat) XOR of_char b) =
            take_bit 8 (of_char a) XOR take_bit 8 (of_char b)"
      by (simp only: take_bit_xor)
    also have "\<dots> = of_char a XOR of_char b"
      by (simp add: take_bit_eq_mod)
    finally show ?thesis
      by (simp add: xor_char_def take_bit_eq_mod)
  qed
  then show ?thesis
    by (simp add: nth_encryptDecrypt) (simp add: ENCRYPTION_KEY_def)
qed

theorem encryptDecrypt_involutive_length_xor_witness:
  "encryptDecrypt (encryptDecrypt ''hi'') = ''hi''
   \<and> length (encryptDecrypt ''hi'') = 2
   \<and> of_char (encryptDecrypt ''hi'' ! 1) = (105 :: nat) XOR 121"
  using encryptDecrypt_involutive_length_xor [of "''hi''"]
  by (simp add: ENCRYPTION_KEY_def)


section \<open>Properties of text extraction and decimal numbers\<close>

lemma isspace_space: "isspace CHR '' ''"
  by (simp add: isspace_def)

lemma extract_string_space: "extract_string (CHR '' '' # ss) = extract_string ss"
  by (simp add: extract_string_def isspace_def)

lemma extract_string_token:
  assumes "tok \<noteq> []" and "\<forall>c \<in> set tok. \<not> isspace c"
  shows "extract_string (tok @ CHR '' '' # rest) = (tok, CHR '' '' # rest)"
proof -
  from assms have "dropWhile isspace (tok @ CHR '' '' # rest) = tok @ CHR '' '' # rest"
    by (cases tok) auto
  moreover from assms(2)
  have "takeWhile (\<lambda>c. \<not> isspace c) (tok @ CHR '' '' # rest) = tok"
    and "dropWhile (\<lambda>c. \<not> isspace c) (tok @ CHR '' '' # rest) = CHR '' '' # rest"
    by (simp_all add: isspace_def)
  ultimately show ?thesis
    by (simp add: extract_string_def)
qed

lemma extract_string_token_end:
  assumes "tok \<noteq> []" and "\<forall>c \<in> set tok. \<not> isspace c"
  shows "extract_string tok = (tok, [])"
proof -
  from assms have "dropWhile isspace tok = tok"
    by (cases tok) auto
  moreover from assms(2) have "takeWhile (\<lambda>c. \<not> isspace c) tok = tok"
    and "dropWhile (\<lambda>c. \<not> isspace c) tok = []"
    by simp_all
  ultimately show ?thesis
    by (simp add: extract_string_def)
qed

lemma digit_char:
  assumes "d < 10"
  shows "isdigit (''0123456789'' ! d) \<and> digit_val (''0123456789'' ! d) = int d"
proof -
  from assms have "d \<in> {0, 1, 2, 3, 4, 5, 6, 7, 8, 9}"
    by auto
  then show ?thesis
    by (auto simp: isdigit_def digit_val_def)
qed

lemma isdigit_not_space: "isdigit c \<Longrightarrow> \<not> isspace c \<and> c \<noteq> CHR ''-'' \<and> c \<noteq> CHR ''+''"
  by (auto simp: isdigit_def isspace_def)

lemma dec_digits_nonempty: "dec_digits n \<noteq> []"
  by (subst dec_digits.simps) simp

lemma dec_digits_isdigit: "c \<in> set (dec_digits n) \<Longrightarrow> isdigit c"
proof (induction n rule: dec_digits.induct)
  case (1 n)
  show ?case
  proof (cases "n < 10")
    case True
    with "1.prems" show ?thesis
      by (subst (asm) dec_digits.simps) (simp add: digit_char)
  next
    case False
    with "1.prems" have "c \<in> set (dec_digits (n div 10)) \<or> c = ''0123456789'' ! (n mod 10)"
      by (subst (asm) dec_digits.simps) auto
    with False "1.IH" show ?thesis
      using digit_char [of "n mod 10"] by auto
  qed
qed

lemma decimal_value_snoc:
  "decimal_value (ds @ [c]) = 10 * decimal_value ds + digit_val c"
  by (simp add: decimal_value_def)

lemma decimal_value_dec_digits: "decimal_value (dec_digits n) = int n"
proof (induction n rule: dec_digits.induct)
  case (1 n)
  show ?case
  proof (cases "n < 10")
    case True
    then show ?thesis
      by (subst dec_digits.simps) (simp add: digit_char decimal_value_def)
  next
    case False
    have "digit_val (''0123456789'' ! (n mod 10)) = int (n mod 10)"
      using digit_char [of "n mod 10"] by simp
    moreover have "10 * int (n div 10) + int (n mod 10) = int n"
      by (simp add: zdiv_int zmod_int)
    ultimately show ?thesis
      using False "1.IH" by (subst dec_digits.simps) (simp add: decimal_value_snoc)
  qed
qed

lemma length_dec_digits: "n < 10 ^ k \<Longrightarrow> 0 < k \<Longrightarrow> length (dec_digits n) \<le> k"
proof (induction n arbitrary: k rule: dec_digits.induct)
  case (1 n)
  show ?case
  proof (cases "n < 10")
    case True
    with "1.prems" show ?thesis
      by (subst dec_digits.simps) simp
  next
    case False
    with "1.prems" obtain j where k: "k = Suc j"
      by (cases k) auto
    with False "1.prems" have "0 < j"
      by (cases j) auto
    moreover from k "1.prems" have "n div 10 < 10 ^ j"
      by (simp add: less_mult_imp_div_less mult.commute)
    ultimately have "length (dec_digits (n div 10)) \<le> j"
      using "1.IH" False by simp
    with False k show ?thesis
      by (subst dec_digits.simps) simp
  qed
qed

lemma to_string_nonneg: "0 \<le> n \<Longrightarrow> to_string n = dec_digits (nat n)"
  by (simp add: to_string_def)

lemma to_string_digit: "to_string 0 = ''0''" "to_string 1 = ''1''" "to_string 3 = ''3''"
  by (simp_all add: to_string_def dec_digits.simps)

lemma to_string_head: "to_string n \<noteq> [] \<and> \<not> isspace (hd (to_string n))"
proof -
  have "dec_digits m \<noteq> [] \<and> \<not> isspace (hd (dec_digits m))" for m
    using dec_digits_nonempty [of m] dec_digits_isdigit [of "hd (dec_digits m)" m]
      isdigit_not_space [of "hd (dec_digits m)"]
    by (cases "dec_digits m") auto
  then show ?thesis
    by (simp add: to_string_def isspace_def)
qed

lemma length_to_string:
  assumes "0 \<le> n" and "n \<le> LLONG_MAX"
  shows "length (to_string n) \<le> 19"
proof -
  from assms have "nat n < 10 ^ 19"
    by (simp add: LLONG_MAX_def)
  then have "length (dec_digits (nat n)) \<le> 19"
    by (rule length_dec_digits) simp
  with assms show ?thesis
    by (simp add: to_string_nonneg)
qed

lemma extract_ll_digits:
  assumes "ds \<noteq> []" and "\<forall>c \<in> set ds. isdigit c"
  shows "extract_ll (CHR '' '' # ds) = Some (max LLONG_MIN (min LLONG_MAX (decimal_value ds)))"
    and "extract_ll (CHR '' '' # CHR ''-'' # ds) =
           Some (max LLONG_MIN (min LLONG_MAX (- decimal_value ds)))"
proof -
  from assms have hd: "\<not> isspace (hd ds)" "hd ds \<noteq> CHR ''-''" "hd ds \<noteq> CHR ''+''"
    using isdigit_not_space [of "hd ds"] by (cases ds; simp)+
  from assms(1) hd(1) have dw: "dropWhile isspace ds = ds"
    by (cases ds) auto
  from assms(2) have tw: "takeWhile isdigit ds = ds"
    by simp
  show "extract_ll (CHR '' '' # ds) = Some (max LLONG_MIN (min LLONG_MAX (decimal_value ds)))"
    using assms(1) hd by (simp add: extract_ll_def Let_def isspace_space dw tw)
  have "\<not> isspace CHR ''-''"
    by (simp add: isspace_def)
  then show "extract_ll (CHR '' '' # CHR ''-'' # ds) =
           Some (max LLONG_MIN (min LLONG_MAX (- decimal_value ds)))"
    using assms(1) by (simp add: extract_ll_def Let_def isspace_space tw)
qed

lemma extract_ll_to_string:
  assumes "LLONG_MIN \<le> n" and "n \<le> LLONG_MAX"
  shows "extract_ll (CHR '' '' # to_string n) = Some n"
proof (cases "n < 0")
  case False
  with assms show ?thesis
    using extract_ll_digits(1) [of "dec_digits (nat n)"]
    by (simp add: to_string_def dec_digits_nonempty dec_digits_isdigit decimal_value_dec_digits)
next
  case True
  with assms show ?thesis
    using extract_ll_digits(2) [of "dec_digits (nat (- n))"]
    by (simp add: to_string_def dec_digits_nonempty dec_digits_isdigit decimal_value_dec_digits)
qed

lemma extract_ll_after_space:
  assumes "ss \<noteq> []" and "\<not> isspace (hd ss)"
  shows "extract_ll (CHR '' '' # ss) \<noteq> None"
proof -
  from assms have "dropWhile isspace (CHR '' '' # ss) = ss"
    by (cases ss) (auto simp: isspace_def)
  with assms(1) show ?thesis
    by (simp add: extract_ll_def Let_def)
qed


section \<open>Properties of the file system\<close>

lemma ifstream_open_write_same:
  "ifstream_open (ofstream_write fs p bytes) p =
     Some ((case ifstream_open fs p of None \<Rightarrow> [] | Some old \<Rightarrow> old) @ bytes)"
  by (simp add: ifstream_open_def ofstream_write_def update_conv')

lemma ifstream_open_write_other:
  "q \<noteq> p \<Longrightarrow> ifstream_open (ofstream_write fs p bytes) q = ifstream_open fs q"
  by (simp add: ifstream_open_def ofstream_write_def update_conv')

lemma ofstream_write_write:
  "ofstream_write (ofstream_write fs p a) p b = ofstream_write fs p (a @ b)"
  by (simp add: ofstream_write_def update_conv')

lemma ofstream_write_Nil: "ifstream_open fs p = Some old \<Longrightarrow> ofstream_write fs p [] = fs"
  by (simp add: ifstream_open_def ofstream_write_def update_triv)

lemma writable_ofstream_write [simp]: "writable (ofstream_write fs p bytes) = writable fs"
  by (simp add: ofstream_write_def)

lemma ofstream_open_Some:
  "ofstream_open fs p = Some fs' \<longleftrightarrow>
     writable fs p \<and> fs' = fs\<lparr>files := AList.update p [] (files fs)\<rparr>"
  by (auto simp: ofstream_open_def)

lemma ifstream_open_created:
  "ofstream_open fs p = Some fs' \<Longrightarrow> ifstream_open fs' p = Some []"
  by (auto simp: ofstream_open_def ifstream_open_def update_conv' split: if_splits)

lemma ifstream_open_created_other:
  "ofstream_open fs p = Some fs' \<Longrightarrow> q \<noteq> p \<Longrightarrow> ifstream_open fs' q = ifstream_open fs q"
  by (auto simp: ofstream_open_def ifstream_open_def update_conv' split: if_splits)


section \<open>Properties of the transport\<close>

lemma receiveCommand_encryptDecrypt [simp]: "receiveCommand (encryptDecrypt x) = x"
  by (simp add: receiveCommand_def)

lemma receiveCommand_sendResponse [simp]: "receiveCommand (sendResponse x) = x"
  by (simp add: sendResponse_def)

lemma receiveCommand_eq_Nil [simp]: "receiveCommand raw = [] \<longleftrightarrow> raw = []"
  by (simp add: receiveCommand_def)

lemma receiveCommand_Nil [simp]: "receiveCommand [] = []"
  by (simp add: receiveCommand_def)

lemma sendResponse_eq_Nil [simp]: "sendResponse x = [] \<longleftrightarrow> x = []"
  by (simp add: sendResponse_def)

lemma length_sendResponse [simp]: "length (sendResponse x) = length x"
  by (simp add: sendResponse_def)

lemma encryptDecrypt_sendResponse [simp]: "encryptDecrypt (sendResponse x) = x"
  by (simp add: sendResponse_def)

lemma sendResponse_inject [simp]: "sendResponse x = sendResponse y \<longleftrightarrow> x = y"
  by (metis receiveCommand_sendResponse)

lemma segments_Nil [simp]: "segments [] = []"
  by (simp add: segments.simps)

lemma segments_short: "bytes \<noteq> [] \<Longrightarrow> length bytes \<le> BUFFER_SIZE \<Longrightarrow> segments bytes = [bytes]"
  by (subst segments.simps) simp

lemma segments_long:
  "BUFFER_SIZE < length bytes \<Longrightarrow>
   segments bytes = take BUFFER_SIZE bytes # segments (drop BUFFER_SIZE bytes)"
  by (subst segments.simps) auto

lemma concat_segments: "concat (segments bytes) = bytes"
proof (induction bytes rule: segments.induct)
  case (1 bytes)
  then show ?case
    by (subst segments.simps) simp
qed

lemma segments_nonempty: "b \<in> set (segments bytes) \<Longrightarrow> b \<noteq> [] \<and> length b \<le> BUFFER_SIZE"
proof (induction bytes rule: segments.induct)
  case (1 bytes)
  from "1.prems" have ne: "bytes \<noteq> []"
    by (auto simp: segments.simps [of bytes] split: if_splits)
  with "1.prems" have "b = take BUFFER_SIZE bytes \<or> b \<in> set (segments (drop BUFFER_SIZE bytes))"
    by (subst (asm) segments.simps) simp
  with ne "1.IH" show ?case
    by (auto simp: BUFFER_SIZE_def)
qed

lemma segments_butlast_full:
  "b \<in> set (butlast (segments bytes)) \<Longrightarrow> length b = BUFFER_SIZE"
proof (induction bytes rule: segments.induct)
  case (1 bytes)
  show ?case
  proof (cases "BUFFER_SIZE < length bytes")
    case True
    then have ne: "bytes \<noteq> []" and rest: "segments (drop BUFFER_SIZE bytes) \<noteq> []"
      by (auto simp: segments.simps [of "drop BUFFER_SIZE bytes"])
    from True "1.prems" rest
    have "b = take BUFFER_SIZE bytes \<or> b \<in> set (butlast (segments (drop BUFFER_SIZE bytes)))"
      by (simp add: segments_long)
    with True ne "1.IH" show ?thesis
      by auto
  next
    case False
    with "1.prems" show ?thesis
      by (cases "bytes = []") (simp_all add: segments_short)
  qed
qed

lemma segments_sendResponse:
  "x \<noteq> [] \<Longrightarrow> length x \<le> BUFFER_SIZE \<Longrightarrow> segments (sendResponse x) = [sendResponse x]"
  by (simp add: segments_short)

lemma segments_encryptDecrypt:
  "x \<noteq> [] \<Longrightarrow> length x \<le> BUFFER_SIZE \<Longrightarrow> segments (encryptDecrypt x) = [encryptDecrypt x]"
  by (simp add: segments_short)

lemma concat_segments_short:
  "\<forall>m \<in> set msgs. m \<noteq> [] \<and> length m \<le> BUFFER_SIZE \<Longrightarrow> concat (map segments msgs) = msgs"
  by (induction msgs) (simp_all add: segments_short)


section \<open>The server session: authentication\<close>

lemma server_step_unauthenticated:
  assumes "\<not> isAuthenticated s" and "mode s = AwaitCommand" and "raw \<noteq> []"
  shows "server_step s raw =
           (if login_accepted (receiveCommand raw)
            then (s\<lparr>isAuthenticated := True\<rparr>, [sendResponse ''AUTH_SUCCESS''])
            else if fst (extract_string (receiveCommand raw)) = ''AUTH''
            then (s, [sendResponse ''AUTH_FAIL''])
            else (s, [sendResponse ''ERROR Authentication required.'']))"
  using assms
  by (auto simp: server_step_def handle_command_def login_accepted_def Let_def
           split: prod.splits)

lemma server_run_rejected:
  assumes "\<not> isAuthenticated s" and "mode s = AwaitCommand"
    and "\<forall>raw \<in> set raws. raw \<noteq> [] \<and> \<not> login_accepted (receiveCommand raw)"
  shows "fst (server_run s raws) = s
         \<and> length (snd (server_run s raws)) = length raws
         \<and> set (snd (server_run s raws)) \<subseteq>
             {sendResponse ''AUTH_FAIL'', sendResponse ''ERROR Authentication required.''}"
  using assms
proof (induction raws)
  case Nil
  then show ?case by simp
next
  case (Cons raw raws)
  then have step: "server_step s raw = (s, [sendResponse ''AUTH_FAIL'']) \<or>
         server_step s raw = (s, [sendResponse ''ERROR Authentication required.''])"
    by (simp add: server_step_unauthenticated)
  from Cons have IH: "fst (server_run s raws) = s
         \<and> length (snd (server_run s raws)) = length raws
         \<and> set (snd (server_run s raws)) \<subseteq>
             {sendResponse ''AUTH_FAIL'', sendResponse ''ERROR Authentication required.''}"
    by simp
  from step IH show ?case
    by (auto simp: split_beta)
qed

lemma login_examples:
  "login_accepted ''AUTH user pass123''"
  "\<not> login_accepted ''AUTH user wrong''"
  "\<not> login_accepted ''AUTH nouser x''"
  by (simp_all add: login_accepted_def extract_string_def isspace_def valid_login_def
        VALID_USERS_def)

text \<open>
  Claim C6. Authentication gate, for a session that has not authenticated and waits for a
  command: \<^verbatim>\<open>AUTH user pass123\<close> is accepted and marks the session authenticated;
  \<^verbatim>\<open>AUTH user wrong\<close> and \<^verbatim>\<open>AUTH nouser x\<close> are rejected; every message whose command is
  not \<^verbatim>\<open>AUTH\<close> is answered with the authentication-required error; and after any number of
  rejected messages the session is unchanged: still open, still waiting for a command, one
  response sent for each message.
\<close>

theorem authentication_gate:
  assumes "\<not> isAuthenticated s" and "mode s = AwaitCommand"
  shows
    "server_step s (encryptDecrypt ''AUTH user pass123'') =
       (s\<lparr>isAuthenticated := True\<rparr>, [sendResponse ''AUTH_SUCCESS''])
     \<and> server_step s (encryptDecrypt ''AUTH user wrong'') = (s, [sendResponse ''AUTH_FAIL''])
     \<and> server_step s (encryptDecrypt ''AUTH nouser x'') = (s, [sendResponse ''AUTH_FAIL''])
     \<and> (\<forall>raw. raw \<noteq> [] \<and> fst (extract_string (receiveCommand raw)) \<noteq> ''AUTH'' \<longrightarrow>
           server_step s raw = (s, [sendResponse ''ERROR Authentication required.'']))
     \<and> (\<forall>raws. (\<forall>raw \<in> set raws. raw \<noteq> [] \<and> \<not> login_accepted (receiveCommand raw)) \<longrightarrow>
           fst (server_run s raws) = s
           \<and> length (snd (server_run s raws)) = length raws
           \<and> set (snd (server_run s raws)) \<subseteq>
               {sendResponse ''AUTH_FAIL'', sendResponse ''ERROR Authentication required.''})"
proof -
  have a: "server_step s (encryptDecrypt ''AUTH user pass123'') =
       (s\<lparr>isAuthenticated := True\<rparr>, [sendResponse ''AUTH_SUCCESS''])"
    using assms login_examples(1) by (simp add: server_step_unauthenticated)
  have b: "server_step s (encryptDecrypt ''AUTH user wrong'') = (s, [sendResponse ''AUTH_FAIL''])"
    using assms login_examples(2)
    by (simp add: server_step_unauthenticated) (simp add: extract_string_def isspace_def)
  have c: "server_step s (encryptDecrypt ''AUTH nouser x'') = (s, [sendResponse ''AUTH_FAIL''])"
    using assms login_examples(3)
    by (simp add: server_step_unauthenticated) (simp add: extract_string_def isspace_def)
  have d: "server_step s raw = (s, [sendResponse ''ERROR Authentication required.''])"
    if "raw \<noteq> []" "fst (extract_string (receiveCommand raw)) \<noteq> ''AUTH''" for raw
    using assms that
    by (simp add: server_step_unauthenticated login_accepted_def split_beta)
  from a b c d server_run_rejected [OF assms] show ?thesis
    by blast
qed

theorem authentication_gate_witness:
  "server_step example_guest (encryptDecrypt ''AUTH user pass123'') =
       (example_guest\<lparr>isAuthenticated := True\<rparr>, [sendResponse ''AUTH_SUCCESS''])
   \<and> server_step example_guest (encryptDecrypt ''QUIT'') =
       (example_guest, [sendResponse ''ERROR Authentication required.''])
   \<and> fst (server_run example_guest [encryptDecrypt ''AUTH user wrong'', encryptDecrypt ''LIST'',
                          encryptDecrypt ''AUTH nouser x'']) = example_guest"
proof -
  have h: "\<not> isAuthenticated example_guest" "mode example_guest = AwaitCommand"
    by (simp_all add: example_guest_def)
  have q: "encryptDecrypt ''QUIT'' \<noteq> [] \<and>
           fst (extract_string (receiveCommand (encryptDecrypt ''QUIT''))) \<noteq> ''AUTH''"
    by (simp add: extract_string_def isspace_def)
  have r: "\<forall>raw \<in> set [encryptDecrypt ''AUTH user wrong'', encryptDecrypt ''LIST'',
                          encryptDecrypt ''AUTH nouser x''].
             raw \<noteq> [] \<and> \<not> login_accepted (receiveCommand raw)"
    by (simp add: login_accepted_def extract_string_def isspace_def valid_login_def
          VALID_USERS_def)
  from authentication_gate [OF h] q r show ?thesis
    by blast
qed


section \<open>The server session: listing\<close>

lemma list_command:
  assumes "isAuthenticated s" and "mode s = AwaitCommand"
  shows "server_step s (encryptDecrypt ''LIST'') =
           (case directory_iterator (sfs s) SERVER_FILES_DIR of
              None \<Rightarrow> (s\<lparr>mode := Closed\<rparr>, [])
            | Some names \<Rightarrow>
                (s, [sendResponse (''Files on server:'' @ [CHR 0x0A]
                                    @ concat (map (\<lambda>name. name @ [CHR 0x0A]) names))]))"
proof -
  have "extract_string ''LIST'' = (''LIST'', [])"
    by (simp add: extract_string_def isspace_def)
  with assms show ?thesis
    by (simp add: server_step_def handle_command_def)
qed

lemma two_names:
  assumes "distinct names" and "set names = {a, b}" and "a \<noteq> b"
  shows "names = [a, b] \<or> names = [b, a]"
proof -
  from assms have "length names = 2"
    using distinct_card [of names] by simp
  then obtain x y where "names = [x, y]"
    by (cases names; cases "tl names") auto
  with assms show ?thesis
    by (auto simp: doubleton_eq_iff)
qed

lemma example_listing:
  "directory_iterator (sfs example_server) SERVER_FILES_DIR = Some [''a.txt'', ''b.txt'']"
  by (simp add: directory_iterator_def example_server_def example_fs_def SERVER_FILES_DIR_def
        List.map_filter_simps entry_name_def)

text \<open>
  Claim C7, as amended. For an authenticated session, \<^verbatim>\<open>LIST\<close> against a storage root whose
  entries are exactly \<^verbatim>\<open>a.txt\<close> and \<^verbatim>\<open>b.txt\<close> returns one message: the header line
  \<^verbatim>\<open>Files on server:\<close> followed by exactly those two names, in the order of the directory
  iteration, each followed by a newline.
\<close>

theorem list_two_files:
  assumes "isAuthenticated s" and "mode s = AwaitCommand"
    and "directory_iterator (sfs s) SERVER_FILES_DIR = Some names"
    and "distinct names" and "set names = {''a.txt'', ''b.txt''}"
  shows "server_step s (encryptDecrypt ''LIST'') =
           (s, [sendResponse (''Files on server:'' @ [CHR 0x0A]
                               @ concat (map (\<lambda>name. name @ [CHR 0x0A]) names))])
         \<and> (names = [''a.txt'', ''b.txt''] \<or> names = [''b.txt'', ''a.txt''])"
proof -
  have "names = [''a.txt'', ''b.txt''] \<or> names = [''b.txt'', ''a.txt'']"
    using assms(4,5) by (rule two_names) simp
  with list_command [OF assms(1,2)] assms(3) show ?thesis
    by simp
qed

theorem list_two_files_witness:
  "server_step example_server (encryptDecrypt ''LIST'') =
     (example_server,
      [sendResponse (''Files on server:'' @ [CHR 0x0A] @ ''a.txt'' @ [CHR 0x0A]
                      @ ''b.txt'' @ [CHR 0x0A])])"
proof -
  have "isAuthenticated example_server" and "mode example_server = AwaitCommand"
    and "directory_iterator (sfs example_server) SERVER_FILES_DIR = Some [''a.txt'', ''b.txt'']"
    and "distinct [''a.txt'', ''b.txt'']" and "set [''a.txt'', ''b.txt''] = {''a.txt'', ''b.txt''}"
    by (simp_all add: example_listing) (simp_all add: example_server_def)
  from list_two_files [OF this] show ?thesis
    by simp
qed

text \<open>
  Claim C7 as stated fails: the message is not the two names joined by a newline (in either
  order, with or without a final newline), since it starts with a header line.
\<close>

theorem list_header_counterexample:
  "server_step example_server (encryptDecrypt ''LIST'') =
     (example_server,
      [sendResponse (''Files on server:'' @ [CHR 0x0A] @ ''a.txt'' @ [CHR 0x0A]
                      @ ''b.txt'' @ [CHR 0x0A])])
   \<and> ''Files on server:'' @ [CHR 0x0A] @ ''a.txt'' @ [CHR 0x0A] @ ''b.txt'' @ [CHR 0x0A]
       \<notin> {''a.txt'' @ [CHR 0x0A] @ ''b.txt'', ''b.txt'' @ [CHR 0x0A] @ ''a.txt'',
           ''a.txt'' @ [CHR 0x0A] @ ''b.txt'' @ [CHR 0x0A],
           ''b.txt'' @ [CHR 0x0A] @ ''a.txt'' @ [CHR 0x0A]}"
proof -
  have "isAuthenticated example_server" and "mode example_server = AwaitCommand"
    by (simp_all add: example_server_def)
  from list_command [OF this] show ?thesis
    by (simp add: example_listing)
qed


section \<open>The server session: download\<close>

lemma stream_file_segments: "stream_file rest = map sendResponse (segments rest)"
proof (induction rest rule: stream_file.induct)
  case (1 rest)
  show ?case
  proof (cases "rest = []")
    case True
    then show ?thesis
      by (simp add: stream_file.simps BUFFER_SIZE_def)
  next
    case False
    then have "BUFFER_SIZE \<le> length rest \<or> 0 < length (take BUFFER_SIZE rest)"
      by (simp add: BUFFER_SIZE_def)
    with False "1.IH" show ?thesis
      by (subst stream_file.simps, subst segments.simps) (simp add: Let_def)
  qed
qed

text \<open>
  Claim C9. Server download streaming: on the readiness token \<^verbatim>\<open>START\<close> the server sends
  the file in blocks, one message each, in order, every block full (\<^verbatim>\<open>BUFFER_SIZE\<close> bytes)
  except possibly the last, which is not empty, up to the end of the file, whatever size was
  announced (the state holds no byte count for the sender), and then the completion sentinel
  \<^verbatim>\<open>DOWNLOAD_DONE\<close> once, as the last message.
\<close>

theorem download_streaming:
  assumes "mode s = AwaitStart file" and "receiveCommand raw = ''START''"
  shows "\<exists>blocks.
           server_step s raw =
             (s\<lparr>mode := AwaitCommand\<rparr>,
              map sendResponse blocks @ [sendResponse ''DOWNLOAD_DONE''])
           \<and> concat blocks = file
           \<and> (\<forall>b \<in> set blocks. b \<noteq> [] \<and> length b \<le> BUFFER_SIZE)
           \<and> (\<forall>b \<in> set (butlast blocks). length b = BUFFER_SIZE)"
proof (intro exI conjI)
  show "server_step s raw =
          (s\<lparr>mode := AwaitCommand\<rparr>,
           map sendResponse (segments file) @ [sendResponse ''DOWNLOAD_DONE''])"
    using assms by (simp add: server_step_def stream_file_segments)
  show "concat (segments file) = file"
    by (rule concat_segments)
  show "\<forall>b \<in> set (segments file). b \<noteq> [] \<and> length b \<le> BUFFER_SIZE"
    using segments_nonempty by blast
  show "\<forall>b \<in> set (butlast (segments file)). length b = BUFFER_SIZE"
    using segments_butlast_full by blast
qed

theorem download_streaming_witness:
  "\<exists>blocks.
     server_step (example_server\<lparr>mode := AwaitStart ''alpha''\<rparr>) (encryptDecrypt ''START'') =
       (example_server, map sendResponse blocks @ [sendResponse ''DOWNLOAD_DONE''])
     \<and> concat blocks = ''alpha''"
proof -
  have "mode (example_server\<lparr>mode := AwaitStart ''alpha''\<rparr>) = AwaitStart ''alpha''"
    and "receiveCommand (encryptDecrypt ''START'') = ''START''"
    by simp_all
  from download_streaming [OF this] show ?thesis
    by (auto simp: example_server_def)
qed

lemma download_command:
  assumes "isAuthenticated s" and "mode s = AwaitCommand"
    and "filename \<noteq> []" and "\<forall>c \<in> set filename. \<not> isspace c"
  shows "server_step s (encryptDecrypt (''DOWNLOAD '' @ filename)) =
           (case ifstream_open (sfs s) (SERVER_FILES_DIR @ ''/'' @ filename) of
              Some file \<Rightarrow>
                (s\<lparr>mode := AwaitStart file\<rparr>,
                 [sendResponse (''OK_DOWNLOAD '' @ to_string (int (length file)))])
            | None \<Rightarrow> (s, [sendResponse ''ERROR File not found.'']))"
proof -
  have "extract_string (''DOWNLOAD '' @ filename) = (''DOWNLOAD'', CHR '' '' # filename)"
    using extract_string_token [of "''DOWNLOAD''" filename] by (simp add: isspace_def)
  moreover have "extract_string (CHR '' '' # filename) = (filename, [])"
    using assms by (simp add: extract_string_space extract_string_token_end)
  ultimately show ?thesis
    using assms by (simp add: server_step_def handle_command_def)
qed

text \<open>
  Claim C8. Silent abort on a missing readiness token: after the server has sent the size
  acknowledgement for a download, a next message that is anything but \<^verbatim>\<open>START\<close> makes it
  send nothing, neither data nor an error, and return to awaiting the next command with the
  session open and otherwise unchanged.
\<close>

theorem silent_abort_on_missing_START:
  assumes "isAuthenticated s" and "mode s = AwaitCommand"
    and "filename \<noteq> []" and "\<forall>c \<in> set filename. \<not> isspace c"
    and "ifstream_open (sfs s) (SERVER_FILES_DIR @ ''/'' @ filename) = Some file"
    and "receiveCommand raw \<noteq> ''START''"
  shows "server_step s (encryptDecrypt (''DOWNLOAD '' @ filename)) =
           (s\<lparr>mode := AwaitStart file\<rparr>,
            [sendResponse (''OK_DOWNLOAD '' @ to_string (int (length file)))])
         \<and> server_step (s\<lparr>mode := AwaitStart file\<rparr>) raw = (s, [])
         \<and> server_run s [encryptDecrypt (''DOWNLOAD '' @ filename), raw] =
             (s, [sendResponse (''OK_DOWNLOAD '' @ to_string (int (length file)))])"
proof -
  have a: "server_step s (encryptDecrypt (''DOWNLOAD '' @ filename)) =
           (s\<lparr>mode := AwaitStart file\<rparr>,
            [sendResponse (''OK_DOWNLOAD '' @ to_string (int (length file)))])"
    using download_command [OF assms(1-4)] assms(5) by simp
  have "s\<lparr>mode := AwaitCommand\<rparr> = s"
    using assms(2) by simp
  then have b: "server_step (s\<lparr>mode := AwaitStart file\<rparr>) raw = (s, [])"
    using assms(6) by (simp add: server_step_def)
  from a b show ?thesis
    by simp
qed

theorem silent_abort_on_missing_START_witness:
  "server_step example_server (encryptDecrypt ''DOWNLOAD a.txt'') =
     (example_server\<lparr>mode := AwaitStart ''alpha''\<rparr>, [sendResponse ''OK_DOWNLOAD 5''])
   \<and> server_step (example_server\<lparr>mode := AwaitStart ''alpha''\<rparr>) (encryptDecrypt ''CANCEL'') =
       (example_server, [])"
proof -
  have "isAuthenticated example_server" and "mode example_server = AwaitCommand"
    and "''a.txt'' \<noteq> []" and "\<forall>c \<in> set ''a.txt''. \<not> isspace c"
    and "ifstream_open (sfs example_server) (SERVER_FILES_DIR @ ''/'' @ ''a.txt'') = Some ''alpha''"
    and "receiveCommand (encryptDecrypt ''CANCEL'') \<noteq> ''START''"
    by (simp_all add: example_server_def example_fs_def isspace_def ifstream_open_def
          SERVER_FILES_DIR_def)
  from silent_abort_on_missing_START [OF this] show ?thesis
    by (simp add: to_string_def dec_digits.simps)
qed


section \<open>The server session: upload\<close>

lemma upload_chunk_step:
  assumes "mode s = Receiving p n b" and "raw \<noteq> []"
  shows "server_step s raw =
           (if b + int (length raw) < n
            then (s\<lparr>sfs := ofstream_write (sfs s) p (encryptDecrypt raw),
                    mode := Receiving p n (b + int (length raw))\<rparr>, [])
            else (s\<lparr>sfs := ofstream_write (sfs s) p (encryptDecrypt raw), mode := AwaitCommand\<rparr>,
                  [if b + int (length raw) = n then sendResponse ''UPLOAD_SUCCESS''
                   else sendResponse ''ERROR Upload incomplete.'']))"
  using assms
  by (simp add: server_step_def upload_chunk_def upload_loop_def upload_finish_def
        receiveCommand_def)

lemma upload_disconnect:
  assumes "mode s = Receiving p n b"
  shows "server_step s [] =
           (s\<lparr>mode := AwaitCommand\<rparr>,
            [if b = n then sendResponse ''UPLOAD_SUCCESS''
             else sendResponse ''ERROR Upload incomplete.''])"
  using assms by (simp add: server_step_def upload_chunk_def upload_finish_def)

lemma receiving_run:
  assumes "mode s = Receiving p n b"
    and "ifstream_open (sfs s) p = Some old"
    and "\<forall>raw \<in> set raws. raw \<noteq> []"
    and "b + int (length (concat (butlast raws))) < n"
  shows "server_run s raws =
           (s\<lparr>sfs := ofstream_write (sfs s) p (concat (map encryptDecrypt raws)),
              mode := (if b + int (length (concat raws)) < n
                       then Receiving p n (b + int (length (concat raws)))
                       else AwaitCommand)\<rparr>,
            if b + int (length (concat raws)) < n then []
            else [if b + int (length (concat raws)) = n then sendResponse ''UPLOAD_SUCCESS''
                  else sendResponse ''ERROR Upload incomplete.''])"
  using assms
proof (induction raws arbitrary: s b old)
  case Nil
  then have "s\<lparr>sfs := ofstream_write (sfs s) p [], mode := Receiving p n b\<rparr> = s"
    by (simp add: ofstream_write_Nil)
  with Nil show ?case
    by simp
next
  case (Cons raw raws)
  from Cons.prems have raw: "raw \<noteq> []"
    by simp
  show ?case
  proof (cases "raws = []")
    case True
    with Cons.prems raw show ?thesis
      by (simp add: upload_chunk_step)
  next
    case False
    define s1 where "s1 = s\<lparr>sfs := ofstream_write (sfs s) p (encryptDecrypt raw),
                           mode := Receiving p n (b + int (length raw))\<rparr>"
    from False Cons.prems have less: "b + int (length raw) + int (length (concat (butlast raws))) < n"
      by simp
    then have "b + int (length raw) < n"
      by linarith
    with Cons.prems raw have step: "server_step s raw = (s1, [])"
      by (simp add: upload_chunk_step s1_def)
    have "server_run s1 raws =
           (s1\<lparr>sfs := ofstream_write (sfs s1) p (concat (map encryptDecrypt raws)),
              mode := (if b + int (length raw) + int (length (concat raws)) < n
                       then Receiving p n (b + int (length raw) + int (length (concat raws)))
                       else AwaitCommand)\<rparr>,
            if b + int (length raw) + int (length (concat raws)) < n then []
            else [if b + int (length raw) + int (length (concat raws)) = n
                  then sendResponse ''UPLOAD_SUCCESS''
                  else sendResponse ''ERROR Upload incomplete.''])"
    proof (rule Cons.IH)
      show "mode s1 = Receiving p n (b + int (length raw))"
        by (simp add: s1_def)
      show "ifstream_open (sfs s1) p = Some (old @ encryptDecrypt raw)"
        using Cons.prems by (simp add: s1_def ifstream_open_write_same)
      show "\<forall>raw \<in> set raws. raw \<noteq> []"
        using Cons.prems by simp
      show "b + int (length raw) + int (length (concat (butlast raws))) < n"
        by (rule less)
    qed
    with step show ?thesis
      by (simp add: s1_def ofstream_write_write add.assoc)
  qed
qed

lemma upload_command:
  assumes "isAuthenticated s" and "mode s = AwaitCommand"
    and "filename \<noteq> []" and "\<forall>c \<in> set filename. \<not> isspace c"
    and "LLONG_MIN \<le> n" and "n \<le> LLONG_MAX"
  shows "server_step s (encryptDecrypt (''UPLOAD '' @ filename @ '' '' @ to_string n)) =
           (case ofstream_open (sfs s) (SERVER_FILES_DIR @ ''/'' @ filename) of
              None \<Rightarrow> (s, [sendResponse ''ERROR Cannot create file.''])
            | Some fs' \<Rightarrow>
                if 0 < n
                then (s\<lparr>sfs := fs', mode := Receiving (SERVER_FILES_DIR @ ''/'' @ filename) n 0\<rparr>,
                      [sendResponse ''OK_UPLOAD''])
                else (s\<lparr>sfs := fs'\<rparr>,
                      [sendResponse ''OK_UPLOAD'',
                       if 0 = n then sendResponse ''UPLOAD_SUCCESS''
                       else sendResponse ''ERROR Upload incomplete.'']))"
proof -
  have "extract_string (''UPLOAD '' @ filename @ '' '' @ to_string n) =
          (''UPLOAD'', CHR '' '' # filename @ CHR '' '' # to_string n)"
    using extract_string_token [of "''UPLOAD''" "filename @ CHR '' '' # to_string n"]
    by (simp add: isspace_def)
  moreover have "extract_string (CHR '' '' # filename @ CHR '' '' # to_string n) =
          (filename, CHR '' '' # to_string n)"
    using assms by (simp add: extract_string_space extract_string_token)
  moreover have "extract_ll (CHR '' '' # to_string n) = Some n"
    using assms by (simp add: extract_ll_to_string)
  moreover have "s\<lparr>sfs := fs', mode := AwaitCommand\<rparr> = s\<lparr>sfs := fs'\<rparr>" for fs'
    using assms by simp
  ultimately show ?thesis
    using assms(1,2)
    by (cases "ofstream_open (sfs s) (SERVER_FILES_DIR @ ''/'' @ filename)")
       (simp_all add: server_step_def handle_command_def upload_loop_def upload_finish_def)
qed

text \<open>
  Claim C3. Server upload completion. After \<^verbatim>\<open>UPLOAD filename fileSize\<close> the server answers
  \<^verbatim>\<open>OK_UPLOAD\<close> and receives messages until the running counter is no longer below the
  declared size; \<open>raws\<close> are the messages received, none of them read after the loop was
  left. The server then responds \<^verbatim>\<open>UPLOAD_SUCCESS\<close> if and only if the counter equals
  the declared size. When the counter has passed the size, the response is the
  incomplete-upload error and the file holds every byte received, none discarded. While the
  counter is below the size the server keeps receiving, and a disconnect at that point is
  answered with the incomplete-upload error, not with success.
\<close>

theorem upload_completion:
  assumes "isAuthenticated s" and "mode s = AwaitCommand"
    and "filename \<noteq> []" and "\<forall>c \<in> set filename. \<not> isspace c"
    and "LLONG_MIN \<le> fileSize" and "fileSize \<le> LLONG_MAX"
    and "writable (sfs s) (SERVER_FILES_DIR @ ''/'' @ filename)"
    and "\<forall>raw \<in> set raws. raw \<noteq> []"
    and "raws \<noteq> [] \<longrightarrow> int (length (concat (butlast raws))) < fileSize"
    and "server_run s (encryptDecrypt (''UPLOAD '' @ filename @ '' '' @ to_string fileSize) # raws)
           = (s', out)"
  shows
    "(let total = int (length (concat raws)) in
      out = (if total < fileSize then [sendResponse ''OK_UPLOAD'']
             else if total = fileSize
             then [sendResponse ''OK_UPLOAD'', sendResponse ''UPLOAD_SUCCESS'']
             else [sendResponse ''OK_UPLOAD'', sendResponse ''ERROR Upload incomplete.''])
      \<and> (sendResponse ''UPLOAD_SUCCESS'' \<in> set out \<longleftrightarrow> total = fileSize)
      \<and> mode s' = (if total < fileSize
                   then Receiving (SERVER_FILES_DIR @ ''/'' @ filename) fileSize total
                   else AwaitCommand)
      \<and> ifstream_open (sfs s') (SERVER_FILES_DIR @ ''/'' @ filename) =
            Some (concat (map encryptDecrypt raws))
      \<and> (total < fileSize \<longrightarrow>
            server_step s' [] =
              (s'\<lparr>mode := AwaitCommand\<rparr>, [sendResponse ''ERROR Upload incomplete.''])))"
proof -
  define p where "p = SERVER_FILES_DIR @ ''/'' @ filename"
  define fs' where "fs' = (sfs s)\<lparr>files := AList.update p [] (files (sfs s))\<rparr>"
  define total where "total = int (length (concat raws))"
  from assms(7) have opened: "ofstream_open (sfs s) p = Some fs'"
    by (simp add: ofstream_open_def p_def fs'_def)
  have cmd: "server_step s (encryptDecrypt (''UPLOAD '' @ filename @ '' '' @ to_string fileSize)) =
      (if 0 < fileSize
       then (s\<lparr>sfs := fs', mode := Receiving p fileSize 0\<rparr>, [sendResponse ''OK_UPLOAD''])
       else (s\<lparr>sfs := fs'\<rparr>,
             [sendResponse ''OK_UPLOAD'',
              if 0 = fileSize then sendResponse ''UPLOAD_SUCCESS''
              else sendResponse ''ERROR Upload incomplete.'']))"
    using upload_command [OF assms(1-6)] opened by (simp add: p_def)
  have result:
    "out = (if total < fileSize then [sendResponse ''OK_UPLOAD'']
             else if total = fileSize
             then [sendResponse ''OK_UPLOAD'', sendResponse ''UPLOAD_SUCCESS'']
             else [sendResponse ''OK_UPLOAD'', sendResponse ''ERROR Upload incomplete.''])
     \<and> mode s' = (if total < fileSize then Receiving p fileSize total else AwaitCommand)
     \<and> ifstream_open (sfs s') p = Some (concat (map encryptDecrypt raws))"
  proof (cases "0 < fileSize")
    case True
    define s1 where "s1 = s\<lparr>sfs := fs', mode := Receiving p fileSize 0\<rparr>"
    have "server_run s1 raws =
           (s1\<lparr>sfs := ofstream_write (sfs s1) p (concat (map encryptDecrypt raws)),
               mode := (if 0 + int (length (concat raws)) < fileSize
                        then Receiving p fileSize (0 + int (length (concat raws)))
                        else AwaitCommand)\<rparr>,
            if 0 + int (length (concat raws)) < fileSize then []
            else [if 0 + int (length (concat raws)) = fileSize
                  then sendResponse ''UPLOAD_SUCCESS''
                  else sendResponse ''ERROR Upload incomplete.''])"
    proof (rule receiving_run)
      show "mode s1 = Receiving p fileSize 0"
        by (simp add: s1_def)
      show "ifstream_open (sfs s1) p = Some []"
        using opened by (simp add: s1_def ifstream_open_created)
      show "\<forall>raw \<in> set raws. raw \<noteq> []"
        by (rule assms(8))
      show "0 + int (length (concat (butlast raws))) < fileSize"
        using True assms(9) by (cases "raws = []") simp_all
    qed
    moreover have "ifstream_open (ofstream_write fs' p bytes) p = Some bytes" for bytes
      using opened by (simp add: ifstream_open_write_same ifstream_open_created)
    ultimately show ?thesis
      using True cmd assms(10) by (auto simp: s1_def total_def)
  next
    case False
    with assms(9) have "raws = []"
      by (cases "raws = []") auto
    with False cmd assms(10) opened show ?thesis
      by (auto simp: total_def ifstream_open_created assms(2))
  qed
  moreover from result
  have "total < fileSize \<longrightarrow>
          server_step s' [] =
            (s'\<lparr>mode := AwaitCommand\<rparr>, [sendResponse ''ERROR Upload incomplete.''])"
    by (auto simp: upload_disconnect)
  ultimately show ?thesis
    unfolding Let_def total_def [symmetric] p_def [symmetric] by auto
qed

theorem upload_completion_witness:
  "snd (server_run example_server
          [encryptDecrypt ''UPLOAD c.txt 3'', encryptDecrypt ''ab'', encryptDecrypt ''cd''])
     = [sendResponse ''OK_UPLOAD'', sendResponse ''ERROR Upload incomplete.'']
   \<and> ifstream_open
         (sfs (fst (server_run example_server
            [encryptDecrypt ''UPLOAD c.txt 3'', encryptDecrypt ''ab'', encryptDecrypt ''cd''])))
         ''server_files/c.txt'' = Some ''abcd''"
proof -
  define raws where "raws = [encryptDecrypt ''ab'', encryptDecrypt ''cd'']"
  define run where
    "run = server_run example_server
             (encryptDecrypt (''UPLOAD '' @ ''c.txt'' @ '' '' @ to_string 3) # raws)"
  have "isAuthenticated example_server" and "mode example_server = AwaitCommand"
    and "''c.txt'' \<noteq> []" and "\<forall>c \<in> set ''c.txt''. \<not> isspace c"
    and "LLONG_MIN \<le> 3" and "3 \<le> LLONG_MAX"
    and "writable (sfs example_server) (SERVER_FILES_DIR @ ''/'' @ ''c.txt'')"
    and "\<forall>raw \<in> set raws. raw \<noteq> []"
    and "raws \<noteq> [] \<longrightarrow> int (length (concat (butlast raws))) < 3"
    and "server_run example_server
           (encryptDecrypt (''UPLOAD '' @ ''c.txt'' @ '' '' @ to_string 3) # raws)
         = (fst run, snd run)"
    by (simp_all add: example_server_def example_fs_def isspace_def LLONG_MIN_def LLONG_MAX_def
          raws_def run_def)
  from upload_completion [OF this]
  have "snd run = [sendResponse ''OK_UPLOAD'', sendResponse ''ERROR Upload incomplete.'']
        \<and> ifstream_open (sfs (fst run)) ''server_files/c.txt'' = Some ''abcd''"
    by (simp add: SERVER_FILES_DIR_def raws_def)
  moreover have "to_string 3 = ''3''"
    by (simp add: to_string_def dec_digits.simps)
  ultimately show ?thesis
    by (simp add: run_def raws_def)
qed


section \<open>The client: receiving a download\<close>

lemma receiveResponse_Cons:
  "inbox c = raw # rest \<Longrightarrow> raw \<noteq> [] \<Longrightarrow>
   receiveResponse c = Returns (encryptDecrypt raw, c\<lparr>inbox := rest\<rparr>)"
  by (simp add: receiveResponse_def)

lemma download_loop_exit:
  "\<not> bytesReceived < fileSize \<Longrightarrow>
   download_loop c filepath fileSize bytesReceived = Returns (c, bytesReceived)"
  by (subst download_loop.simps) simp

lemma download_loop_chunk:
  assumes "bytesReceived < fileSize" and "inbox c = raw # rest" and "raw \<noteq> []"
  shows "download_loop c filepath fileSize bytesReceived =
           (if fileSize < bytesReceived + int (length raw)
            then download_loop
                   (c\<lparr>inbox := rest,
                      cfs := ofstream_write (cfs c) filepath
                               (take (nat (fileSize - bytesReceived)) (encryptDecrypt raw))\<rparr>)
                   filepath fileSize fileSize
            else download_loop
                   (c\<lparr>inbox := rest,
                      cfs := ofstream_write (cfs c) filepath (encryptDecrypt raw)\<rparr>)
                   filepath fileSize (bytesReceived + int (length raw)))"
  using assms
  by (subst download_loop.simps) (simp add: receiveResponse_def Let_def)

lemma download_loop_written:
  assumes "download_loop c filepath fileSize bytesReceived = Returns (c', bytesReceived')"
    and "ifstream_open (cfs c) filepath = Some old"
  shows "\<exists>written. ifstream_open (cfs c') filepath = Some (old @ written)
           \<and> bytesReceived' = bytesReceived + int (length written)
           \<and> (bytesReceived \<le> fileSize \<longrightarrow> bytesReceived' \<le> fileSize)
           \<and> (fileSize \<le> bytesReceived \<longrightarrow> written = [])"
  using assms
proof (induction c filepath fileSize bytesReceived arbitrary: old
       rule: download_loop.induct)
  case (1 c filepath fileSize bytesReceived)
  show ?case
  proof (cases "bytesReceived < fileSize")
    case False
    with "1.prems" show ?thesis
      by (simp add: download_loop_exit)
  next
    case True
    note less = this
    show ?thesis
    proof (cases "receiveResponse c")
      case Blocked
      with less "1.prems"(1) show ?thesis
        by (subst (asm) download_loop.simps) simp
    next
      case UB
      with less "1.prems"(1) show ?thesis
        by (subst (asm) download_loop.simps) simp
    next
      case (Returns r)
      obtain chunk c1 where r: "r = (chunk, c1)"
        by (cases r)
      show ?thesis
      proof (cases "chunk = []")
        case True
        with less Returns r "1.prems"(1)
        have "c' = print c1 ''[-] Error: Connection lost during download.''"
          and "bytesReceived' = bytesReceived"
          by (subst (asm) download_loop.simps, simp)+
        moreover from Returns r have "cfs c1 = cfs c"
          by (auto simp: receiveResponse_def split: list.splits if_splits)
        ultimately show ?thesis
          using "1.prems"(2) less by (simp add: print_def)
      next
        case False
        define truncate where "truncate \<longleftrightarrow> bytesReceived + int (length chunk) > fileSize"
        define bytesToWrite where
          "bytesToWrite = (if truncate then fileSize - bytesReceived else int (length chunk))"
        define chunk' where "chunk' = (if truncate then take (nat bytesToWrite) chunk else chunk)"
        define c2 where "c2 = c1\<lparr>cfs := ofstream_write (cfs c1) filepath chunk'\<rparr>"
        from Returns r have cfs1: "cfs c1 = cfs c"
          by (auto simp: receiveResponse_def split: list.splits if_splits)
        have len: "int (length chunk') = bytesToWrite"
          using less by (auto simp: chunk'_def bytesToWrite_def truncate_def)
        have next_run: "download_loop c2 filepath fileSize (bytesReceived + bytesToWrite)
                          = Returns (c', bytesReceived')"
          using less Returns r False "1.prems"(1)
          by (subst (asm) download_loop.simps)
             (auto simp: Let_def c2_def chunk'_def bytesToWrite_def truncate_def
                   split: if_splits)
        have opened: "ifstream_open (cfs c2) filepath = Some (old @ chunk')"
          using "1.prems"(2) by (simp add: c2_def cfs1 ifstream_open_write_same)
        have "\<exists>written. ifstream_open (cfs c') filepath = Some ((old @ chunk') @ written)
           \<and> bytesReceived' = (bytesReceived + bytesToWrite) + int (length written)
           \<and> (bytesReceived + bytesToWrite \<le> fileSize \<longrightarrow> bytesReceived' \<le> fileSize)
           \<and> (fileSize \<le> bytesReceived + bytesToWrite \<longrightarrow> written = [])"
          using "1.IH" [OF less Returns r [symmetric] False truncate_def bytesToWrite_def
              chunk'_def next_run [unfolded c2_def] opened [unfolded c2_def]] .
        then obtain written where w: "ifstream_open (cfs c') filepath = Some (old @ chunk' @ written)"
          "bytesReceived' = bytesReceived + bytesToWrite + int (length written)"
          "bytesReceived + bytesToWrite \<le> fileSize \<longrightarrow> bytesReceived' \<le> fileSize"
          by auto
        have "bytesReceived + bytesToWrite \<le> fileSize"
          by (auto simp: bytesToWrite_def truncate_def)
        with w len less show ?thesis
          by (intro exI [of _ "chunk' @ written"]) simp
      qed
    qed
  qed
qed

lemma download_loop_blocks:
  assumes "inbox c = map sendResponse (segments rest) @ pending"
    and "b + int (length rest) = n"
    and "ifstream_open (cfs c) p = Some stored"
  shows "download_loop c p n b =
           Returns (c\<lparr>inbox := pending, cfs := ofstream_write (cfs c) p rest\<rparr>, n)"
  using assms
proof (induction rest arbitrary: c b stored rule: segments.induct)
  case (1 rest)
  show ?case
  proof (cases "rest = []")
    case True
    with "1.prems" have "c\<lparr>inbox := pending, cfs := ofstream_write (cfs c) p rest\<rparr> = c"
      by (simp add: ofstream_write_Nil)
    with True "1.prems" show ?thesis
      by (simp add: download_loop_exit)
  next
    case False
    define seg where "seg = take BUFFER_SIZE rest"
    define rest' where "rest' = drop BUFFER_SIZE rest"
    have seg: "seg \<noteq> []" and split: "rest = seg @ rest'"
      using False by (simp_all add: seg_def rest'_def BUFFER_SIZE_def)
    have len: "length rest = length seg + length rest'"
      by (metis split length_append)
    have segs: "segments rest = seg # segments rest'"
      using False by (subst segments.simps) (simp add: seg_def rest'_def)
    define c1 where
      "c1 = c\<lparr>inbox := map sendResponse (segments rest') @ pending,
               cfs := ofstream_write (cfs c) p seg\<rparr>"
    have "b < n" and "inbox c = sendResponse seg # map sendResponse (segments rest') @ pending"
      and "sendResponse seg \<noteq> []" and "\<not> n < b + int (length (sendResponse seg))"
      using "1.prems"(1,2) seg len segs by (auto simp: length_greater_0_conv [symmetric]
          simp del: length_greater_0_conv)
    then have "download_loop c p n b = download_loop c1 p n (b + int (length seg))"
      by (simp add: download_loop_chunk c1_def)
    also have "\<dots> = Returns (c1\<lparr>inbox := pending, cfs := ofstream_write (cfs c1) p rest'\<rparr>, n)"
      unfolding rest'_def
    proof (rule "1.IH" [OF False])
      show "inbox c1 = map sendResponse (segments (drop BUFFER_SIZE rest)) @ pending"
        by (simp add: c1_def rest'_def)
      show "b + int (length seg) + int (length (drop BUFFER_SIZE rest)) = n"
        using len "1.prems"(2) unfolding rest'_def by linarith
      show "ifstream_open (cfs c1) p = Some (stored @ seg)"
        using "1.prems"(3) by (simp add: c1_def ifstream_open_write_same)
    qed
    also have "c1\<lparr>inbox := pending, cfs := ofstream_write (cfs c1) p rest'\<rparr> =
               c\<lparr>inbox := pending, cfs := ofstream_write (cfs c) p rest\<rparr>"
      by (subst split) (simp add: c1_def ofstream_write_write)
    finally show ?thesis .
  qed
qed

text \<open>
  Claim C4, as amended. In the client's download receiver the count of bytes written to the
  destination file never exceeds the declared size: from a count that is not above the size,
  the loop writes exactly the bytes it counts and ends with a count that is not above the
  size, because an incoming message is cut down to the bytes still missing. The server's
  upload receiver does not truncate: it appends every received message whole, whatever the
  declared size.
\<close>

theorem receiver_byte_counts:
  "(download_loop c filepath fileSize bytesReceived = Returns (c', bytesReceived')
      \<and> bytesReceived \<le> fileSize \<and> ifstream_open (cfs c) filepath = Some old \<longrightarrow>
      (\<exists>written. ifstream_open (cfs c') filepath = Some (old @ written)
         \<and> bytesReceived' = bytesReceived + int (length written)
         \<and> bytesReceived' \<le> fileSize))
   \<and> (mode s = Receiving path declared count \<and> raw \<noteq> []
        \<and> ifstream_open (sfs s) path = Some stored \<longrightarrow>
        ifstream_open (sfs (fst (server_step s raw))) path = Some (stored @ encryptDecrypt raw))"
proof (intro conjI impI)
  assume "download_loop c filepath fileSize bytesReceived = Returns (c', bytesReceived')
      \<and> bytesReceived \<le> fileSize \<and> ifstream_open (cfs c) filepath = Some old"
  then show "\<exists>written. ifstream_open (cfs c') filepath = Some (old @ written)
         \<and> bytesReceived' = bytesReceived + int (length written)
         \<and> bytesReceived' \<le> fileSize"
    using download_loop_written [of c filepath fileSize bytesReceived c' bytesReceived' old]
    by auto
next
  assume "mode s = Receiving path declared count \<and> raw \<noteq> []
        \<and> ifstream_open (sfs s) path = Some stored"
  then show "ifstream_open (sfs (fst (server_step s raw))) path = Some (stored @ encryptDecrypt raw)"
    by (simp add: upload_chunk_step ifstream_open_write_same)
qed

theorem receiver_byte_counts_witness:
  "(\<exists>written.
      ifstream_open
        (cfs (example_client
               \<lparr>inbox := [],
                cfs := ofstream_write (cfs example_client) ''client_files/c.txt''
                         (take 2 ''wxyz'')\<rparr>))
        ''client_files/c.txt'' = Some (''abc'' @ written)
      \<and> (5 :: int) = 3 + int (length written))
   \<and> ifstream_open
        (sfs (fst (server_step
                (example_server\<lparr>mode := Receiving ''server_files/a.txt'' 1 0\<rparr>)
                (encryptDecrypt ''xy''))))
        ''server_files/a.txt'' = Some ''alphaxy''"
proof -
  define c where "c = example_client\<lparr>inbox := [encryptDecrypt ''wxyz'']\<rparr>"
  define c' where
    "c' = example_client
            \<lparr>inbox := [],
             cfs := ofstream_write (cfs example_client) ''client_files/c.txt''
                      (take 2 ''wxyz'')\<rparr>"
  define s where "s = example_server\<lparr>mode := Receiving ''server_files/a.txt'' 1 0\<rparr>"
  have "download_loop c ''client_files/c.txt'' 5 3 = Returns (c', 5)"
    by (simp add: download_loop_chunk [where raw = "encryptDecrypt ''wxyz''" and rest = "[]"]
          download_loop_exit c_def c'_def)
  moreover have "ifstream_open (cfs c) ''client_files/c.txt'' = Some ''abc''"
    by (simp add: c_def example_client_def ifstream_open_def)
  moreover have "mode s = Receiving ''server_files/a.txt'' 1 0"
    and "ifstream_open (sfs s) ''server_files/a.txt'' = Some ''alpha''"
    by (simp_all add: s_def example_server_def example_fs_def ifstream_open_def)
  ultimately show ?thesis
    using receiver_byte_counts [of c "''client_files/c.txt''" 5 3 c' 5 "''abc''"
        s "''server_files/a.txt''" 1 0 "encryptDecrypt ''xy''" "''alpha''"]
    by (simp add: c'_def s_def)
qed

text \<open>
  Claim C4 as stated fails for the server's upload receiver: with a declared size of 1 and
  one message of 2 bytes, the destination file holds 2 bytes.
\<close>

theorem upload_overshoot_counterexample:
  "ifstream_open
     (sfs (fst (server_run example_server
                  [encryptDecrypt ''UPLOAD c.txt 1'', encryptDecrypt ''ab''])))
     ''server_files/c.txt'' = Some ''ab''
   \<and> (1 :: int) < int (length ''ab'')"
proof -
  have "server_step example_server
          (encryptDecrypt (''UPLOAD '' @ ''c.txt'' @ '' '' @ to_string 1)) =
        (example_server
           \<lparr>sfs := example_fs\<lparr>files := AList.update ''server_files/c.txt'' [] (files example_fs)\<rparr>,
            mode := Receiving ''server_files/c.txt'' 1 0\<rparr>,
         [sendResponse ''OK_UPLOAD''])"
    by (subst upload_command)
       (simp_all add: example_server_def isspace_def LLONG_MIN_def LLONG_MAX_def
          ofstream_open_def example_fs_def SERVER_FILES_DIR_def)
  then show ?thesis
    by (simp add: to_string_digit upload_chunk_step ifstream_open_def ofstream_write_def
          update_conv')
qed

text \<open>
  Claim C5. Client download truncation: when a received content message would push the
  running total past the declared size, only the bytes still missing are written and the
  total after that message is exactly the declared size; the loop exits, one more message is
  read, and if it is not \<^verbatim>\<open>DOWNLOAD_DONE\<close> a warning is printed after the line reporting the
  download as complete; the function returns, and no failure is reported.
\<close>

theorem download_truncation:
  assumes "bytesReceived < fileSize"
    and "inbox c = raw # done_raw # rest"
    and "fileSize < bytesReceived + int (length raw)"
  shows
    "download_loop c filepath fileSize bytesReceived =
       Returns (c\<lparr>inbox := done_raw # rest,
                  cfs := ofstream_write (cfs c) filepath
                           (take (nat (fileSize - bytesReceived)) (encryptDecrypt raw))\<rparr>,
                fileSize)
     \<and> download_receive c filepath fileSize bytesReceived =
         Returns
           (let c' = c\<lparr>inbox := rest,
                       cfs := ofstream_write (cfs c) filepath
                                (take (nat (fileSize - bytesReceived)) (encryptDecrypt raw)),
                       console := console c @ [''[+] Download complete: '' @ filepath]\<rparr>;
                done_signal = (if done_raw = [] then [] else encryptDecrypt done_raw)
            in if done_signal \<noteq> ''DOWNLOAD_DONE''
               then c'\<lparr>console := console c'
                        @ [''[+] Warning: Did not receive final DONE signal. Got: ''
                           @ done_signal]\<rparr>
               else c')"
proof -
  from assms have "raw \<noteq> []"
    by auto
  with assms have loop: "download_loop c filepath fileSize bytesReceived =
       Returns (c\<lparr>inbox := done_raw # rest,
                  cfs := ofstream_write (cfs c) filepath
                           (take (nat (fileSize - bytesReceived)) (encryptDecrypt raw))\<rparr>,
                fileSize)"
    by (simp add: download_loop_chunk download_loop_exit)
  then show ?thesis
    by (simp add: download_receive_def download_finish_def receiveResponse_def print_def Let_def)
qed

theorem download_truncation_witness:
  "download_receive (example_client\<lparr>inbox := [encryptDecrypt ''wxyz'', encryptDecrypt ''bye'']\<rparr>)
     ''client_files/c.txt'' 5 3 =
   Returns (example_client
     \<lparr>inbox := [],
      cfs := ofstream_write (cfs example_client) ''client_files/c.txt'' ''wx'',
      console := [''[+] Download complete: client_files/c.txt'',
                  ''[+] Warning: Did not receive final DONE signal. Got: bye'']\<rparr>)"
proof -
  define c where
    "c = example_client\<lparr>inbox := [encryptDecrypt ''wxyz'', encryptDecrypt ''bye'']\<rparr>"
  have "(3 :: int) < 5" and "inbox c = encryptDecrypt ''wxyz'' # encryptDecrypt ''bye'' # []"
    and "(5 :: int) < 3 + int (length (encryptDecrypt ''wxyz''))"
    by (simp_all add: c_def)
  from download_truncation [OF this, of "''client_files/c.txt''"] show ?thesis
    by (simp add: c_def example_client_def)
qed


section \<open>Client and server together\<close>

lemma sendCommand_one:
  assumes "cmd \<noteq> []" and "length cmd \<le> BUFFER_SIZE"
  shows "sendCommand c cmd =
           (mode (peer c) \<noteq> Closed,
            c\<lparr>peer := fst (server_step (peer c) (encryptDecrypt cmd)),
              inbox := inbox c
                       @ concat (map segments (snd (server_step (peer c) (encryptDecrypt cmd)))),
              sent := sent c @ [encryptDecrypt cmd]\<rparr>)"
  using assms
  by (simp add: sendCommand_def segments_encryptDecrypt split_beta Let_def)

lemma upload_send_loop_Nil: "upload_send_loop c [] = (True, c)"
  by (subst upload_send_loop.simps) (simp add: BUFFER_SIZE_def)

lemma upload_send_loop_receiving:
  assumes "mode (peer c) = Receiving p n b"
    and "ifstream_open (sfs (peer c)) p = Some stored"
    and "b + int (length rest) = n" and "rest \<noteq> []"
  shows "\<exists>c'. upload_send_loop c rest = (True, c')
           \<and> cfs c' = cfs c \<and> console c' = console c
           \<and> inbox c' = inbox c @ [sendResponse ''UPLOAD_SUCCESS'']
           \<and> peer c' = (peer c)\<lparr>sfs := ofstream_write (sfs (peer c)) p rest,
                                 mode := AwaitCommand\<rparr>"
  using assms
proof (induction c rest arbitrary: b stored rule: upload_send_loop.induct)
  case (1 c rest)
  define chunk where "chunk = take (BUFFER_SIZE div 2) rest"
  define rest' where "rest' = drop (BUFFER_SIZE div 2) rest"
  have chunk: "chunk \<noteq> []" "length chunk \<le> BUFFER_SIZE"
    and split: "rest = chunk @ rest'"
    using "1.prems"(4) by (simp_all add: chunk_def rest'_def BUFFER_SIZE_def)
  have len: "length rest = length chunk + length rest'"
    by (metis split length_append)
  have cond: "BUFFER_SIZE div 2 \<le> length rest \<or> 0 < length (take (BUFFER_SIZE div 2) rest)"
    using chunk by (simp add: chunk_def)
  have raw: "encryptDecrypt chunk \<noteq> []"
    using chunk by simp
  define c1 where "c1 = snd (sendCommand c chunk)"
  have sent_ok: "sendCommand c chunk = (True, c1)"
    using chunk "1.prems"(1) by (simp add: c1_def sendCommand_one)
  have unfold: "upload_send_loop c rest = upload_send_loop c1 rest'"
    using "1.prems"(4) sent_ok
    by (subst upload_send_loop.simps) (simp add: Let_def chunk_def rest'_def BUFFER_SIZE_def)
  show ?case
  proof (cases "rest' = []")
    case True
    with len "1.prems"(3) have total: "b + int (length chunk) = n"
      by simp
    have "server_step (peer c) (encryptDecrypt chunk) =
            ((peer c)\<lparr>sfs := ofstream_write (sfs (peer c)) p chunk, mode := AwaitCommand\<rparr>,
             [sendResponse ''UPLOAD_SUCCESS''])"
      using "1.prems"(1) raw total by (simp add: upload_chunk_step)
    with chunk True split unfold show ?thesis
      by (simp add: c1_def sendCommand_one upload_send_loop_Nil segments_sendResponse
            BUFFER_SIZE_def)
  next
    case False
    with len "1.prems"(3) have less: "b + int (length chunk) < n"
      by (cases rest') auto
    have step: "server_step (peer c) (encryptDecrypt chunk) =
            ((peer c)\<lparr>sfs := ofstream_write (sfs (peer c)) p chunk,
                      mode := Receiving p n (b + int (length chunk))\<rparr>, [])"
      using "1.prems"(1) raw less by (simp add: upload_chunk_step)
    have c1: "peer c1 = (peer c)\<lparr>sfs := ofstream_write (sfs (peer c)) p chunk,
                                mode := Receiving p n (b + int (length chunk))\<rparr>"
      "inbox c1 = inbox c" "cfs c1 = cfs c" "console c1 = console c"
      using chunk step by (simp_all add: c1_def sendCommand_one)
    have "\<exists>c'. upload_send_loop c1 rest' = (True, c')
           \<and> cfs c' = cfs c1 \<and> console c' = console c1
           \<and> inbox c' = inbox c1 @ [sendResponse ''UPLOAD_SUCCESS'']
           \<and> peer c' = (peer c1)\<lparr>sfs := ofstream_write (sfs (peer c1)) p rest',
                                  mode := AwaitCommand\<rparr>"
      unfolding rest'_def
    proof (rule "1.IH" [OF refl refl cond sent_ok [unfolded chunk_def, symmetric]])
      show "\<not> \<not> True"
        by simp
      show "mode (peer c1) = Receiving p n (b + int (length chunk))"
        by (simp add: c1)
      show "ifstream_open (sfs (peer c1)) p = Some (stored @ chunk)"
        using "1.prems"(2) by (simp add: c1 ifstream_open_write_same)
      show "b + int (length chunk) + int (length (drop (BUFFER_SIZE div 2) rest)) = n"
        using len "1.prems"(3) unfolding rest'_def by linarith
      show "drop (BUFFER_SIZE div 2) rest \<noteq> []"
        using False by (simp add: rest'_def)
    qed (rule refl)
    with unfold show ?thesis
      unfolding c1 rest'_def [symmetric]
      by (subst split) (simp add: ofstream_write_write)
  qed
qed

lemma handleUpload_success:
  assumes auth: "isAuthenticated (peer c)" and idle: "mode (peer c) = AwaitCommand"
    and empty: "inbox c = []"
    and name: "filename \<noteq> []" "\<forall>ch \<in> set filename. \<not> isspace ch"
      "length filename + 27 \<le> BUFFER_SIZE"
    and src: "ifstream_open (cfs c) (CLIENT_FILES_DIR @ ''/'' @ filename) = Some content"
    and size: "int (length content) \<le> LLONG_MAX"
    and wr: "writable (sfs (peer c)) (SERVER_FILES_DIR @ ''/'' @ filename)"
  shows "\<exists>c1. handleUpload c filename = Returns c1
           \<and> cfs c1 = cfs c \<and> inbox c1 = []
           \<and> isAuthenticated (peer c1) \<and> mode (peer c1) = AwaitCommand
           \<and> ifstream_open (sfs (peer c1)) (SERVER_FILES_DIR @ ''/'' @ filename) = Some content
           \<and> peer c1 =
               (peer c)\<lparr>sfs := (sfs (peer c))
                 \<lparr>files := AList.update (SERVER_FILES_DIR @ ''/'' @ filename) content
                             (files (sfs (peer c)))\<rparr>\<rparr>
           \<and> console c1 = console c
               @ [''[+] Uploading '' @ filename @ '' ('' @ to_string (int (length content))
                  @ '' bytes)...'',
                  ''[+] Server response: UPLOAD_SUCCESS'']"
proof -
  define n where "n = int (length content)"
  define p where "p = SERVER_FILES_DIR @ ''/'' @ filename"
  define fs' where "fs' = (sfs (peer c))\<lparr>files := AList.update p [] (files (sfs (peer c)))\<rparr>"
  define target where
    "target = (sfs (peer c))\<lparr>files := AList.update p content (files (sfs (peer c)))\<rparr>"
  have written: "ofstream_write fs' p content = target"
    by (simp add: ofstream_write_def fs'_def target_def update_conv')
  have same: "(peer c)\<lparr>sfs := x, mode := AwaitCommand\<rparr> = (peer c)\<lparr>sfs := x\<rparr>" for x
    using idle by simp
  have stored: "ifstream_open target p = Some content"
    by (simp add: target_def ifstream_open_def update_conv')
  define cmd where "cmd = ''UPLOAD '' @ filename @ '' '' @ to_string n"
  define line where
    "line = ''[+] Uploading '' @ filename @ '' ('' @ to_string n @ '' bytes)...''"
  have range: "LLONG_MIN \<le> n" "n \<le> LLONG_MAX" "0 \<le> n"
    using size by (simp_all add: n_def LLONG_MIN_def)
  have opened: "ofstream_open (sfs (peer c)) p = Some fs'"
    using wr by (simp add: ofstream_open_def p_def fs'_def)
  have created: "ifstream_open fs' p = Some []"
    using opened by (rule ifstream_open_created)
  have cmd: "cmd \<noteq> []" "length cmd \<le> BUFFER_SIZE"
    using name(3) length_to_string [OF range(3,2)] by (simp_all add: cmd_def)
  have step: "server_step (peer c) (encryptDecrypt cmd) =
      (if 0 < n
       then ((peer c)\<lparr>sfs := fs', mode := Receiving p n 0\<rparr>, [sendResponse ''OK_UPLOAD''])
       else ((peer c)\<lparr>sfs := fs'\<rparr>,
             [sendResponse ''OK_UPLOAD'', sendResponse ''UPLOAD_SUCCESS'']))"
    using upload_command [OF auth idle name(1,2) range(1,2)] opened range(3)
    by (simp add: cmd_def p_def)
  define c1 where "c1 = snd (sendCommand c cmd)"
  have sent: "sendCommand c cmd = (True, c1)"
    using cmd idle by (simp add: c1_def sendCommand_one)
  define c2 where "c2 = c1\<lparr>inbox := tl (inbox c1)\<rparr>"
  define c3 where "c3 = print c2 line"
  have c1: "cfs c1 = cfs c" "console c1 = console c"
    "inbox c1 = (if 0 < n then [sendResponse ''OK_UPLOAD'']
                 else [sendResponse ''OK_UPLOAD'', sendResponse ''UPLOAD_SUCCESS''])"
    "peer c1 = (if 0 < n then (peer c)\<lparr>sfs := fs', mode := Receiving p n 0\<rparr>
                else (peer c)\<lparr>sfs := fs'\<rparr>)"
    using cmd step empty
    by (simp_all add: c1_def sendCommand_one segments_sendResponse BUFFER_SIZE_def)
  have recv1: "receiveResponse c1 = Returns (''OK_UPLOAD'', c2)"
    using c1(3) by (simp add: receiveResponse_def c2_def split: if_splits)
  have "\<exists>c4. upload_send_loop c3 content = (True, c4)
          \<and> cfs c4 = cfs c \<and> console c4 = console c @ [line]
          \<and> inbox c4 = [sendResponse ''UPLOAD_SUCCESS'']
          \<and> peer c4 = (peer c)\<lparr>sfs := target\<rparr>"
  proof (cases "0 < n")
    case True
    have "\<exists>c'. upload_send_loop c3 content = (True, c')
           \<and> cfs c' = cfs c3 \<and> console c' = console c3
           \<and> inbox c' = inbox c3 @ [sendResponse ''UPLOAD_SUCCESS'']
           \<and> peer c' = (peer c3)\<lparr>sfs := ofstream_write (sfs (peer c3)) p content,
                                  mode := AwaitCommand\<rparr>"
    proof (rule upload_send_loop_receiving)
      show "mode (peer c3) = Receiving p n 0"
        using True by (simp add: c3_def c2_def c1 print_def)
      show "ifstream_open (sfs (peer c3)) p = Some []"
        using True created by (simp add: c3_def c2_def c1 print_def)
      show "0 + int (length content) = n"
        by (simp add: n_def)
      show "content \<noteq> []"
        using True by (auto simp: n_def)
    qed
    with True written same show ?thesis
      by (auto simp: c3_def c2_def c1 print_def)
  next
    case False
    then have "content = []"
      by (simp add: n_def)
    with False show ?thesis
      by (simp add: upload_send_loop_Nil c3_def c2_def c1 print_def fs'_def target_def)
  qed
  then obtain c4 where c4: "upload_send_loop c3 content = (True, c4)"
    "cfs c4 = cfs c" "console c4 = console c @ [line]"
    "inbox c4 = [sendResponse ''UPLOAD_SUCCESS'']"
    "peer c4 = (peer c)\<lparr>sfs := target\<rparr>"
    by blast
  have recv2: "receiveResponse c4 = Returns (''UPLOAD_SUCCESS'', c4\<lparr>inbox := []\<rparr>)"
    using c4(4) by (simp add: receiveResponse_def)
  have "handleUpload c filename =
          Returns (print (c4\<lparr>inbox := []\<rparr>) ''[+] Server response: UPLOAD_SUCCESS'')"
    using src sent recv1 c4(1) recv2
    by (simp add: handleUpload_def Let_def c3_def line_def cmd_def n_def)
  moreover have "isAuthenticated (peer c4)" and "mode (peer c4) = AwaitCommand"
    and "ifstream_open (sfs (peer c4)) p = Some content"
    using auth idle stored by (simp_all add: c4(5))
  ultimately show ?thesis
    using c4(2-5) by (simp add: print_def line_def n_def p_def target_def)
qed

lemma download_announced:
  assumes auth: "isAuthenticated (peer c)" and idle: "mode (peer c) = AwaitCommand"
    and empty: "inbox c = []"
    and name: "filename \<noteq> []" "\<forall>ch \<in> set filename. \<not> isspace ch"
      "length filename + 27 \<le> BUFFER_SIZE"
    and srv: "ifstream_open (sfs (peer c)) (SERVER_FILES_DIR @ ''/'' @ filename) = Some content"
    and size: "int (length content) \<le> LLONG_MAX"
    and c1: "c1 = c\<lparr>peer := (peer c)\<lparr>mode := AwaitStart content\<rparr>,
                     inbox := [sendResponse (''OK_DOWNLOAD '' @ to_string (int (length content)))],
                     sent := sent c @ [encryptDecrypt (''DOWNLOAD '' @ filename)]\<rparr>"
  shows "sendCommand c (''DOWNLOAD '' @ filename) = (True, c1)"
    and "receiveResponse c1 =
           Returns (''OK_DOWNLOAD '' @ to_string (int (length content)), c1\<lparr>inbox := []\<rparr>)"
    and "extract_string (''OK_DOWNLOAD '' @ to_string (int (length content))) =
           (''OK_DOWNLOAD'', CHR '' '' # to_string (int (length content)))"
    and "extract_ll (CHR '' '' # to_string (int (length content))) = Some (int (length content))"
proof -
  define n where "n = int (length content)"
  define cmd where "cmd = ''DOWNLOAD '' @ filename"
  have range: "LLONG_MIN \<le> n" "n \<le> LLONG_MAX" "0 \<le> n"
    using size by (simp_all add: n_def LLONG_MIN_def)
  have cmd: "cmd \<noteq> []" "length cmd \<le> BUFFER_SIZE"
    using name(3) by (simp_all add: cmd_def)
  have reply: "''OK_DOWNLOAD '' @ to_string n \<noteq> []"
    "length (''OK_DOWNLOAD '' @ to_string n) \<le> BUFFER_SIZE"
    using length_to_string [OF range(3,2)] by (simp_all add: BUFFER_SIZE_def)
  have step: "server_step (peer c) (encryptDecrypt cmd) =
      ((peer c)\<lparr>mode := AwaitStart content\<rparr>, [sendResponse (''OK_DOWNLOAD '' @ to_string n)])"
    using download_command [OF auth idle name(1,2)] srv by (simp add: cmd_def n_def)
  have "sendCommand c cmd = (True, c1)"
    using cmd idle step empty reply
    by (simp add: c1 sendCommand_one segments_sendResponse n_def cmd_def del: append.simps)
  then show "sendCommand c (''DOWNLOAD '' @ filename) = (True, c1)"
    by (simp add: cmd_def)
  have "receiveResponse c1 = Returns (''OK_DOWNLOAD '' @ to_string n, c1\<lparr>inbox := []\<rparr>)"
    using reply(1) by (simp add: c1 receiveResponse_def n_def del: append.simps)
  then show "receiveResponse c1 =
           Returns (''OK_DOWNLOAD '' @ to_string (int (length content)), c1\<lparr>inbox := []\<rparr>)"
    by (simp add: n_def)
  show "extract_string (''OK_DOWNLOAD '' @ to_string (int (length content))) =
           (''OK_DOWNLOAD'', CHR '' '' # to_string (int (length content)))"
    using extract_string_token [of "''OK_DOWNLOAD''" "to_string (int (length content))"]
    by (simp add: isspace_def)
  show "extract_ll (CHR '' '' # to_string (int (length content))) = Some (int (length content))"
    using range by (simp add: extract_ll_to_string n_def)
qed

lemma command_download_exact:
  assumes auth: "isAuthenticated (peer c)" and idle: "mode (peer c) = AwaitCommand"
    and empty: "inbox c = []"
    and name: "filename \<noteq> []" "\<forall>ch \<in> set filename. \<not> isspace ch"
      "length filename + 27 \<le> BUFFER_SIZE"
    and srv: "ifstream_open (sfs (peer c)) (SERVER_FILES_DIR @ ''/'' @ filename) = Some content"
    and size: "int (length content) \<le> LLONG_MAX"
    and wr: "writable (cfs c) (CLIENT_FILES_DIR @ ''/'' @ filename)"
  shows "command_download c filename =
           Returns (c\<lparr>cfs := (cfs c)\<lparr>files := AList.update (CLIENT_FILES_DIR @ ''/'' @ filename)
                                                content (files (cfs c))\<rparr>,
                      sent := sent c @ [encryptDecrypt (''DOWNLOAD '' @ filename),
                                        encryptDecrypt ''START''],
                      console := console c
                        @ [''[+] Server OK. File size: '' @ to_string (int (length content))
                           @ '' bytes.'',
                           ''[+] Downloading '' @ filename @ ''...'',
                           ''[+] Download complete: '' @ CLIENT_FILES_DIR @ ''/'' @ filename]\<rparr>)"
proof -
  define n where "n = int (length content)"
  define p where "p = CLIENT_FILES_DIR @ ''/'' @ filename"
  define fs' where "fs' = (cfs c)\<lparr>files := AList.update p [] (files (cfs c))\<rparr>"
  define line1 where "line1 = ''[+] Server OK. File size: '' @ to_string n @ '' bytes.''"
  define line2 where "line2 = ''[+] Downloading '' @ filename @ ''...''"
  define line3 where "line3 = ''[+] Download complete: '' @ p"
  define c1 where
    "c1 = c\<lparr>peer := (peer c)\<lparr>mode := AwaitStart content\<rparr>,
              inbox := [sendResponse (''OK_DOWNLOAD '' @ to_string (int (length content)))],
              sent := sent c @ [encryptDecrypt (''DOWNLOAD '' @ filename)]\<rparr>"
  note announced = download_announced [OF auth idle empty name srv size c1_def, folded n_def]
  have c1: "cfs c1 = cfs c" "console c1 = console c"
    "peer c1 = (peer c)\<lparr>mode := AwaitStart content\<rparr>"
    by (simp_all add: c1_def)
  define c2 where "c2 = (print (c1\<lparr>inbox := []\<rparr>) line1)\<lparr>cfs := fs'\<rparr>"
  have opened: "ofstream_open (cfs (print (c1\<lparr>inbox := []\<rparr>) line1)) p = Some fs'"
    using wr by (simp add: ofstream_open_def p_def fs'_def print_def c1)
  have created: "ifstream_open fs' p = Some []"
    by (simp add: fs'_def ifstream_open_def update_conv')
  have start: "server_step (peer c2) (encryptDecrypt ''START'') =
      (peer c, map sendResponse (segments content) @ [sendResponse ''DOWNLOAD_DONE''])"
    using idle by (simp add: server_step_def c2_def print_def c1 stream_file_segments)
  have "\<forall>m \<in> set (map sendResponse (segments content) @ [sendResponse ''DOWNLOAD_DONE'']).
          m \<noteq> [] \<and> length m \<le> BUFFER_SIZE"
    using segments_nonempty by (auto simp: BUFFER_SIZE_def)
  then have wire: "concat (map segments
                     (map sendResponse (segments content) @ [sendResponse ''DOWNLOAD_DONE''])) =
                   map sendResponse (segments content) @ [sendResponse ''DOWNLOAD_DONE'']"
    by (rule concat_segments_short)
  define c3 where "c3 = snd (sendCommand c2 ''START'')"
  have sent: "sendCommand c2 ''START'' = (True, c3)"
    by (simp add: c3_def sendCommand_one BUFFER_SIZE_def c2_def print_def c1)
  define c4 where "c4 = print c3 line2"
  have c4: "cfs c4 = fs'" "peer c4 = peer c" "console c4 = console c @ [line1, line2]"
    "inbox c4 = map sendResponse (segments content) @ [sendResponse ''DOWNLOAD_DONE'']"
    using start wire
    by (simp_all add: c4_def c3_def sendCommand_one BUFFER_SIZE_def c2_def print_def c1)
  define c5 where
    "c5 = c4\<lparr>inbox := [sendResponse ''DOWNLOAD_DONE''], cfs := ofstream_write fs' p content\<rparr>"
  have "download_loop c4 p n 0 =
          Returns (c4\<lparr>inbox := [sendResponse ''DOWNLOAD_DONE''],
                     cfs := ofstream_write (cfs c4) p content\<rparr>, n)"
    by (rule download_loop_blocks [where stored = "[]"]) (simp_all add: c4 n_def created)
  then have loop: "download_loop c4 p n 0 = Returns (c5, n)"
    by (simp add: c5_def c4)
  define c7 where "c7 = (print c5 line3)\<lparr>inbox := []\<rparr>"
  have finish: "download_finish c5 p n n = Returns c7"
    by (simp add: download_finish_def receiveResponse_def print_def c5_def c7_def line3_def)
  have "handleDownload c1 filename = Returns c7"
    using announced(2-4) opened sent loop finish
    by (simp add: handleDownload_def download_receive_def Let_def c2_def c4_def
          line1_def line2_def p_def)
  with announced(1) have run: "command_download c filename = Returns c7"
    by (simp add: command_download_def)
  have written: "ofstream_write fs' p content =
                   (cfs c)\<lparr>files := AList.update p content (files (cfs c))\<rparr>"
    by (simp add: ofstream_write_def fs'_def update_conv')
  have "c7 = c\<lparr>cfs := (cfs c)\<lparr>files := AList.update p content (files (cfs c))\<rparr>,
                 sent := sent c @ [encryptDecrypt (''DOWNLOAD '' @ filename),
                                   encryptDecrypt ''START''],
                 console := console c @ [line1, line2, line3]\<rparr>"
    using written start wire empty
    by (simp add: c7_def c5_def c4_def c3_def sendCommand_one BUFFER_SIZE_def c2_def
          print_def c1_def)
  with run show ?thesis
    by (simp add: line1_def line2_def line3_def p_def n_def)
qed

lemma download_wire:
  assumes "isAuthenticated s" and "mode s = AwaitCommand"
    and "filename \<noteq> []" and "\<forall>ch \<in> set filename. \<not> isspace ch"
    and "ifstream_open (sfs s) (SERVER_FILES_DIR @ ''/'' @ filename) = Some content"
  shows "server_run s [encryptDecrypt (''DOWNLOAD '' @ filename), encryptDecrypt ''START''] =
           (s, sendResponse (''OK_DOWNLOAD '' @ to_string (int (length content)))
               # map sendResponse (segments content) @ [sendResponse ''DOWNLOAD_DONE''])"
proof -
  have "s\<lparr>mode := AwaitCommand\<rparr> = s"
    using assms(2) by simp
  with download_command [OF assms(1-4)] assms(5) show ?thesis
    by (simp add: server_step_def stream_file_segments)
qed

text \<open>
  Claim C10. When the client cannot open the destination file after the server has answered
  \<^verbatim>\<open>OK_DOWNLOAD\<close>, it sends \<^verbatim>\<open>CANCEL\<close> in place of \<^verbatim>\<open>START\<close> and returns without
  receiving any content: nothing is left to read, its files are untouched, and the console
  shows the announced size and the error. On the server the token takes the silent-abort
  path: for the whole command it has sent the size acknowledgement and nothing else, and it
  is back in the state it had before the command.
\<close>

theorem download_cancelled_when_destination_unwritable:
  assumes "isAuthenticated (peer c)" and "mode (peer c) = AwaitCommand" and "inbox c = []"
    and "filename \<noteq> []" and "\<forall>ch \<in> set filename. \<not> isspace ch"
    and "length filename + 27 \<le> BUFFER_SIZE"
    and "ifstream_open (sfs (peer c)) (SERVER_FILES_DIR @ ''/'' @ filename) = Some content"
    and "int (length content) \<le> LLONG_MAX"
    and "\<not> writable (cfs c) (CLIENT_FILES_DIR @ ''/'' @ filename)"
  shows
    "command_download c filename =
       Returns (c\<lparr>sent := sent c @ [encryptDecrypt (''DOWNLOAD '' @ filename),
                                     encryptDecrypt ''CANCEL''],
                  console := console c
                    @ [''[+] Server OK. File size: '' @ to_string (int (length content))
                       @ '' bytes.'',
                       ''[-] Error: Could not open file for writing: '' @ CLIENT_FILES_DIR
                       @ ''/'' @ filename]\<rparr>)
     \<and> server_run (peer c) [encryptDecrypt (''DOWNLOAD '' @ filename), encryptDecrypt ''CANCEL'']
         = (peer c, [sendResponse (''OK_DOWNLOAD '' @ to_string (int (length content)))])"
proof -
  define n where "n = int (length content)"
  define p where "p = CLIENT_FILES_DIR @ ''/'' @ filename"
  define line1 where "line1 = ''[+] Server OK. File size: '' @ to_string n @ '' bytes.''"
  define line2 where "line2 = ''[-] Error: Could not open file for writing: '' @ p"
  define c1 where
    "c1 = c\<lparr>peer := (peer c)\<lparr>mode := AwaitStart content\<rparr>,
              inbox := [sendResponse (''OK_DOWNLOAD '' @ to_string (int (length content)))],
              sent := sent c @ [encryptDecrypt (''DOWNLOAD '' @ filename)]\<rparr>"
  note announced = download_announced [OF assms(1-8) c1_def, folded n_def]
  have c1: "cfs c1 = cfs c" "console c1 = console c"
    "peer c1 = (peer c)\<lparr>mode := AwaitStart content\<rparr>"
    by (simp_all add: c1_def)
  define c3 where "c3 = print (print (c1\<lparr>inbox := []\<rparr>) line1) line2"
  have refused: "ofstream_open (cfs (print (c1\<lparr>inbox := []\<rparr>) line1)) p = None"
    using assms(9) by (simp add: ofstream_open_def p_def print_def c1)
  have idle_again: "(peer c)\<lparr>mode := AwaitCommand\<rparr> = peer c"
    using assms(2) by simp
  have aborted: "server_step (peer c3) (encryptDecrypt ''CANCEL'') = (peer c, [])"
    using idle_again by (simp add: server_step_def c3_def print_def c1)
  define c4 where "c4 = snd (sendCommand c3 ''CANCEL'')"
  have cancel: "sendCommand c3 ''CANCEL'' = (True, c4)"
    by (simp add: c4_def sendCommand_one BUFFER_SIZE_def c3_def print_def c1)
  have "handleDownload c1 filename = Returns c4"
    using announced(2-4) refused cancel
    by (simp add: handleDownload_def Let_def c3_def line1_def line2_def p_def)
  with announced(1) have "command_download c filename = Returns c4"
    by (simp add: command_download_def)
  moreover have "c4 = c\<lparr>sent := sent c @ [encryptDecrypt (''DOWNLOAD '' @ filename),
                                          encryptDecrypt ''CANCEL''],
                         console := console c @ [line1, line2]\<rparr>"
    using aborted assms(3)
    by (simp add: c4_def sendCommand_one BUFFER_SIZE_def c3_def print_def c1_def)
  moreover have "server_run (peer c) [encryptDecrypt (''DOWNLOAD '' @ filename),
                                      encryptDecrypt ''CANCEL'']
         = (peer c, [sendResponse (''OK_DOWNLOAD '' @ to_string n)])"
    using download_command [OF assms(1,2,4,5)] assms(7) idle_again
    by (simp add: server_step_def n_def)
  ultimately show ?thesis
    by (simp add: line1_def line2_def p_def n_def)
qed

theorem download_cancelled_when_destination_unwritable_witness:
  "command_download
     (example_client\<lparr>peer := example_server,
                     cfs := (cfs example_client)\<lparr>writable := (\<lambda>path. False)\<rparr>\<rparr>) ''a.txt'' =
   Returns (example_client
     \<lparr>peer := example_server,
      cfs := (cfs example_client)\<lparr>writable := (\<lambda>path. False)\<rparr>,
      sent := [encryptDecrypt ''DOWNLOAD a.txt'', encryptDecrypt ''CANCEL''],
      console := [''[+] Server OK. File size: 5 bytes.'',
                  ''[-] Error: Could not open file for writing: client_files/a.txt'']\<rparr>)"
proof -
  define c where
    "c = example_client\<lparr>peer := example_server,
                         cfs := (cfs example_client)\<lparr>writable := (\<lambda>path. False)\<rparr>\<rparr>"
  have "isAuthenticated (peer c)" and "mode (peer c) = AwaitCommand" and "inbox c = []"
    and "''a.txt'' \<noteq> []" and "\<forall>ch \<in> set ''a.txt''. \<not> isspace ch"
    and "length ''a.txt'' + 27 \<le> BUFFER_SIZE"
    and "ifstream_open (sfs (peer c)) (SERVER_FILES_DIR @ ''/'' @ ''a.txt'') = Some ''alpha''"
    and "int (length ''alpha'') \<le> LLONG_MAX"
    and "\<not> writable (cfs c) (CLIENT_FILES_DIR @ ''/'' @ ''a.txt'')"
    by (simp_all add: c_def example_client_def example_server_def example_fs_def isspace_def
          BUFFER_SIZE_def ifstream_open_def SERVER_FILES_DIR_def LLONG_MAX_def)
  from download_cancelled_when_destination_unwritable [OF this] show ?thesis
    by (simp add: c_def example_client_def CLIENT_FILES_DIR_def to_string_def dec_digits.simps)
qed

text \<open>
  Claim C2. Round trip, with every sent message received as one message (the file name is
  short enough for the command to fit one read; the size fits a \<^verbatim>\<open>long long\<close>). The file
  name is a bare name, without a path separator and neither \<^verbatim>\<open>.\<close> nor \<^verbatim>\<open>..\<close>, so that the
  server touches \<^verbatim>\<open>server_files/name\<close> only and the client \<^verbatim>\<open>client_files/name\<close> only, and
  the files of the two programs are apart, as the model has them. For every content of a
  local file, of any length, zero included, \<^verbatim>\<open>handleUpload\<close> returns with the server's
  answer \<^verbatim>\<open>UPLOAD_SUCCESS\<close>; the server's files are the ones it had, with exactly that
  content stored under the name. The download of the same name that follows makes the server
  send that content, block by block; and whatever the client's files hold by then (the local
  file may have been changed or removed in the meantime), the download returns with the
  download reported complete, having sent \<^verbatim>\<open>DOWNLOAD\<close> and \<^verbatim>\<open>START\<close>, and its only effect
  on the client's files is that the local file holds exactly the uploaded content.
\<close>

theorem upload_download_round_trip:
  assumes "isAuthenticated (peer c)" and "mode (peer c) = AwaitCommand" and "inbox c = []"
    and "filename \<noteq> []" and "\<forall>ch \<in> set filename. \<not> isspace ch"
    and "length filename + 27 \<le> BUFFER_SIZE"
    and "ifstream_open (cfs c) (CLIENT_FILES_DIR @ ''/'' @ filename) = Some content"
    and "int (length content) \<le> LLONG_MAX"
    and "writable (sfs (peer c)) (SERVER_FILES_DIR @ ''/'' @ filename)"
    and "CHR ''/'' \<notin> set filename" and "CHR 0x5C \<notin> set filename"
    and "filename \<noteq> ''.''" and "filename \<noteq> ''..''"
  shows
    "\<exists>c1.
       handleUpload c filename = Returns c1
       \<and> cfs c1 = cfs c
       \<and> peer c1 =
           (peer c)\<lparr>sfs := (sfs (peer c))
             \<lparr>files := AList.update (SERVER_FILES_DIR @ ''/'' @ filename) content
                         (files (sfs (peer c)))\<rparr>\<rparr>
       \<and> ifstream_open (sfs (peer c1)) (SERVER_FILES_DIR @ ''/'' @ filename) = Some content
       \<and> last (console c1) = ''[+] Server response: UPLOAD_SUCCESS''
       \<and> inbox c1 = [] \<and> mode (peer c1) = AwaitCommand
       \<and> (\<exists>blocks.
             server_run (peer c1)
               [encryptDecrypt (''DOWNLOAD '' @ filename), encryptDecrypt ''START''] =
               (peer c1,
                sendResponse (''OK_DOWNLOAD '' @ to_string (int (length content)))
                # map sendResponse blocks @ [sendResponse ''DOWNLOAD_DONE''])
             \<and> concat blocks = content)
       \<and> (\<forall>disk. writable disk (CLIENT_FILES_DIR @ ''/'' @ filename) \<longrightarrow>
             (\<exists>c2.
                command_download (c1\<lparr>cfs := disk\<rparr>) filename = Returns c2
                \<and> c2 = c1\<lparr>cfs := disk\<lparr>files := AList.update (CLIENT_FILES_DIR @ ''/'' @ filename)
                                                 content (files disk)\<rparr>,
                          sent := sent c1 @ [encryptDecrypt (''DOWNLOAD '' @ filename),
                                             encryptDecrypt ''START''],
                          console := console c1
                            @ [''[+] Server OK. File size: '' @ to_string (int (length content))
                               @ '' bytes.'',
                               ''[+] Downloading '' @ filename @ ''...'',
                               ''[+] Download complete: '' @ CLIENT_FILES_DIR @ ''/''
                               @ filename]\<rparr>
                \<and> ifstream_open (cfs c2) (CLIENT_FILES_DIR @ ''/'' @ filename) = Some content
                \<and> last (console c2) =
                    ''[+] Download complete: '' @ CLIENT_FILES_DIR @ ''/'' @ filename
                \<and> inbox c2 = [] \<and> mode (peer c2) = AwaitCommand))"
proof -
  from handleUpload_success [OF assms(1-9)]
  obtain c1 where c1: "handleUpload c filename = Returns c1"
    "cfs c1 = cfs c" "inbox c1 = []" "isAuthenticated (peer c1)" "mode (peer c1) = AwaitCommand"
    "ifstream_open (sfs (peer c1)) (SERVER_FILES_DIR @ ''/'' @ filename) = Some content"
    "peer c1 =
       (peer c)\<lparr>sfs := (sfs (peer c))
         \<lparr>files := AList.update (SERVER_FILES_DIR @ ''/'' @ filename) content
                     (files (sfs (peer c)))\<rparr>\<rparr>"
    "console c1 = console c
               @ [''[+] Uploading '' @ filename @ '' ('' @ to_string (int (length content))
                  @ '' bytes)...'',
                  ''[+] Server response: UPLOAD_SUCCESS'']"
    by blast
  have wire: "\<exists>blocks.
             server_run (peer c1)
               [encryptDecrypt (''DOWNLOAD '' @ filename), encryptDecrypt ''START''] =
               (peer c1,
                sendResponse (''OK_DOWNLOAD '' @ to_string (int (length content)))
                # map sendResponse blocks @ [sendResponse ''DOWNLOAD_DONE''])
             \<and> concat blocks = content"
    using download_wire [OF c1(4,5) assms(4,5) c1(6)] concat_segments [of content] by blast
  have download: "\<forall>disk. writable disk (CLIENT_FILES_DIR @ ''/'' @ filename) \<longrightarrow>
             (\<exists>c2.
                command_download (c1\<lparr>cfs := disk\<rparr>) filename = Returns c2
                \<and> c2 = c1\<lparr>cfs := disk\<lparr>files := AList.update (CLIENT_FILES_DIR @ ''/'' @ filename)
                                                 content (files disk)\<rparr>,
                          sent := sent c1 @ [encryptDecrypt (''DOWNLOAD '' @ filename),
                                             encryptDecrypt ''START''],
                          console := console c1
                            @ [''[+] Server OK. File size: '' @ to_string (int (length content))
                               @ '' bytes.'',
                               ''[+] Downloading '' @ filename @ ''...'',
                               ''[+] Download complete: '' @ CLIENT_FILES_DIR @ ''/''
                               @ filename]\<rparr>
                \<and> ifstream_open (cfs c2) (CLIENT_FILES_DIR @ ''/'' @ filename) = Some content
                \<and> last (console c2) =
                    ''[+] Download complete: '' @ CLIENT_FILES_DIR @ ''/'' @ filename
                \<and> inbox c2 = [] \<and> mode (peer c2) = AwaitCommand)"
  proof (intro allI impI)
    fix disk :: filesystem
    assume w: "writable disk (CLIENT_FILES_DIR @ ''/'' @ filename)"
    define c2 where
      "c2 = c1\<lparr>cfs := disk\<lparr>files := AList.update (CLIENT_FILES_DIR @ ''/'' @ filename)
                                       content (files disk)\<rparr>,
                sent := sent c1 @ [encryptDecrypt (''DOWNLOAD '' @ filename),
                                   encryptDecrypt ''START''],
                console := console c1
                  @ [''[+] Server OK. File size: '' @ to_string (int (length content))
                     @ '' bytes.'',
                     ''[+] Downloading '' @ filename @ ''...'',
                     ''[+] Download complete: '' @ CLIENT_FILES_DIR @ ''/'' @ filename]\<rparr>"
    have "command_download (c1\<lparr>cfs := disk\<rparr>) filename = Returns c2"
      using command_download_exact [of "c1\<lparr>cfs := disk\<rparr>" filename content]
        c1(3-6) assms(4-6,8) w
      by (simp add: c2_def)
    moreover have "ifstream_open (cfs c2) (CLIENT_FILES_DIR @ ''/'' @ filename) = Some content"
      by (simp add: c2_def ifstream_open_def update_conv')
    moreover have "last (console c2) =
                     ''[+] Download complete: '' @ CLIENT_FILES_DIR @ ''/'' @ filename"
      and "inbox c2 = []" and "mode (peer c2) = AwaitCommand"
      using c1(3,5) by (simp_all add: c2_def)
    ultimately show "\<exists>c2.
                command_download (c1\<lparr>cfs := disk\<rparr>) filename = Returns c2
                \<and> c2 = c1\<lparr>cfs := disk\<lparr>files := AList.update (CLIENT_FILES_DIR @ ''/'' @ filename)
                                                 content (files disk)\<rparr>,
                          sent := sent c1 @ [encryptDecrypt (''DOWNLOAD '' @ filename),
                                             encryptDecrypt ''START''],
                          console := console c1
                            @ [''[+] Server OK. File size: '' @ to_string (int (length content))
                               @ '' bytes.'',
                               ''[+] Downloading '' @ filename @ ''...'',
                               ''[+] Download complete: '' @ CLIENT_FILES_DIR @ ''/''
                               @ filename]\<rparr>
                \<and> ifstream_open (cfs c2) (CLIENT_FILES_DIR @ ''/'' @ filename) = Some content
                \<and> last (console c2) =
                    ''[+] Download complete: '' @ CLIENT_FILES_DIR @ ''/'' @ filename
                \<and> inbox c2 = [] \<and> mode (peer c2) = AwaitCommand"
      using c2_def by blast
  qed
  have "last (console c1) = ''[+] Server response: UPLOAD_SUCCESS''"
    by (simp add: c1(8))
  with c1(1-3,5-7) wire download show ?thesis
    by blast
qed

theorem upload_download_round_trip_witness:
  "\<exists>c1 c2.
     handleUpload example_client ''c.txt'' = Returns c1
     \<and> ifstream_open (sfs (peer c1)) ''server_files/c.txt'' = Some ''abc''
     \<and> command_download
         (c1\<lparr>cfs := \<lparr>files = [(''client_files/c.txt'', ''zzzz'')], dirs = [''client_files''],
                      writable = (\<lambda>path. True)\<rparr>\<rparr>) ''c.txt'' = Returns c2
     \<and> ifstream_open (cfs c2) ''client_files/c.txt'' = Some ''abc''"
proof -
  define disk :: filesystem where
    "disk = \<lparr>files = [(''client_files/c.txt'', ''zzzz'')], dirs = [''client_files''],
             writable = (\<lambda>path. True)\<rparr>"
  have "isAuthenticated (peer example_client)" and "mode (peer example_client) = AwaitCommand"
    and "inbox example_client = []"
    and "''c.txt'' \<noteq> []" and "\<forall>ch \<in> set ''c.txt''. \<not> isspace ch"
    and "length ''c.txt'' + 27 \<le> BUFFER_SIZE"
    and "ifstream_open (cfs example_client) (CLIENT_FILES_DIR @ ''/'' @ ''c.txt'') = Some ''abc''"
    and "int (length ''abc'') \<le> LLONG_MAX"
    and "writable (sfs (peer example_client)) (SERVER_FILES_DIR @ ''/'' @ ''c.txt'')"
    and "CHR ''/'' \<notin> set ''c.txt''" and "CHR 0x5C \<notin> set ''c.txt''"
    and "''c.txt'' \<noteq> ''.''" and "''c.txt'' \<noteq> ''..''"
    by (simp_all add: example_client_def example_server_def example_fs_def isspace_def
          BUFFER_SIZE_def ifstream_open_def CLIENT_FILES_DIR_def LLONG_MAX_def)
  from upload_download_round_trip [OF this]
  obtain c1 where c1: "handleUpload example_client ''c.txt'' = Returns c1"
    "ifstream_open (sfs (peer c1)) (SERVER_FILES_DIR @ ''/'' @ ''c.txt'') = Some ''abc''"
    "\<forall>disk. writable disk (CLIENT_FILES_DIR @ ''/'' @ ''c.txt'') \<longrightarrow>
       (\<exists>c2. command_download (c1\<lparr>cfs := disk\<rparr>) ''c.txt'' = Returns c2
          \<and> ifstream_open (cfs c2) (CLIENT_FILES_DIR @ ''/'' @ ''c.txt'') = Some ''abc'')"
    by blast
  have "writable disk (CLIENT_FILES_DIR @ ''/'' @ ''c.txt'')"
    by (simp add: disk_def)
  with c1(3) obtain c2 where "command_download (c1\<lparr>cfs := disk\<rparr>) ''c.txt'' = Returns c2"
    "ifstream_open (cfs c2) (CLIENT_FILES_DIR @ ''/'' @ ''c.txt'') = Some ''abc''"
    by blast
  with c1(1,2) show ?thesis
    by (auto simp: disk_def SERVER_FILES_DIR_def CLIENT_FILES_DIR_def)
qed

end
